theory Spec2Isabelle
  imports Main
begin

section \<open>Data model of the fake clock\<close>

text \<open>
  The Go standard library types \<^verbatim>\<open>time.Time\<close> and \<^verbatim>\<open>time.Duration\<close> are not part of
  the repository. An instant is modelled as an integer number of nanoseconds on the
  time line and a duration as an integer number of nanoseconds; \<^verbatim>\<open>t.Add(d)\<close> is
  \<open>t + d\<close>, \<^verbatim>\<open>a.Before(b)\<close> is \<open>a < b\<close>, \<^verbatim>\<open>a.After(b)\<close> is \<open>b < a\<close>. The code never
  adds two durations, it only compares a duration with zero and adds it to an instant,
  and the range of \<^verbatim>\<open>time.Time\<close> exceeds that of a 64-bit duration by far, so no
  wrap-around occurs in the operations modelled here.

  Timers and tickers are heap objects that the waiter queue refers to by pointer
  (\<^verbatim>\<open>[]expirer\<close> holds \<^verbatim>\<open>*fakeTimer\<close> and \<^verbatim>\<open>*fakeTicker\<close> values). The heap is an
  explicit store from references to objects, so that two queue entries that point to
  the same object are visible as such.
\<close>

type_synonym instant = int
type_synonym duration = int
type_synonym ref = nat
type_synonym chan = nat
type_synonym func = nat

datatype error = NonPositiveInterval

text \<open>
  \<^verbatim>\<open>fakeTimer\<close> (src/timer.go, lines 18-32) and \<^verbatim>\<open>fakeTicker\<close> (src/unnamed/part_001,
  lines 356-369), the two implementations of the interface \<^verbatim>\<open>expirer\<close> (part_001, lines
  120-128): field \<^verbatim>\<open>c\<close> is a channel of capacity one, modelled by its buffer
  (\<open>chanbuf\<close>); field \<^verbatim>\<open>exp\<close> is \<open>expiration\<close>, as its accessor is called; \<^verbatim>\<open>afterFunc\<close>
  is the optional callback, named by a number; field \<^verbatim>\<open>d\<close> of the ticker is \<open>tick_d\<close>.
  Field \<^verbatim>\<open>fc\<close> is the clock itself, which is the state passed around. A new object has
  the zero instant in \<^verbatim>\<open>exp\<close>.
\<close>

datatype expirer =
    FakeTimer (chanbuf: "instant option") (expiration: instant) (afterFunc: "func option")
  | FakeTicker (chanbuf: "instant option") (expiration: instant) (tick_d: duration)

text \<open>\<^verbatim>\<open>blocker\<close> (part_001, lines 113-117) and \<^verbatim>\<open>fakeClockInner\<close> (lines 88-92).\<close>

record blocker =
  count :: int
  ch :: chan

record fakeClockInner =
  waiters :: "ref list"
  blockers :: "blocker list"
  time :: instant

text \<open>
  The rest of the program state that the operations touch: the heap of timers and
  tickers with its allocation counter, the channels of blockers that have been closed
  (with the allocation counter of channels), and the goroutines started by
  \<^verbatim>\<open>go f.afterFunc()\<close>. Field \<open>fired\<close> is a history variable: every call of \<^verbatim>\<open>expire\<close>
  appends the expirer, the instant it was given and the clock's \<^verbatim>\<open>time\<close> at the call.
\<close>

record world = fakeClockInner +
  heap :: "ref \<Rightarrow> expirer"
  nextRef :: ref
  nextChan :: chan
  closed :: "chan list"
  goroutines :: "func list"
  fired :: "(ref \<times> instant \<times> instant) list"

text \<open>\<^verbatim>\<open>NewFakeClockAt\<close> (part_001, lines 104-110).\<close>

definition NewFakeClockAt :: "instant \<Rightarrow> world" where
  "NewFakeClockAt t =
     \<lparr>waiters = [], blockers = [], time = t,
      heap = (\<lambda>_. FakeTimer None 0 None), nextRef = 0, nextChan = 0,
      closed = [], goroutines = [], fired = []\<rparr>"

subsection \<open>Library functions used by the clock\<close>

text \<open>\<^verbatim>\<open>sort.Search(n, f)\<close>: the binary search of the Go standard library.\<close>

function search :: "nat \<Rightarrow> nat \<Rightarrow> (nat \<Rightarrow> bool) \<Rightarrow> nat" where
  "search i j f =
     (if i < j then
        (let h = (i + j) div 2 in
         if \<not> f h then search (h + 1) j f else search i h f)
      else i)"
  by pat_completeness auto
termination
  by (relation "measure (\<lambda>(i, j, f). j - i)") auto

declare search.simps [simp del]

definition sort_Search :: "nat \<Rightarrow> (nat \<Rightarrow> bool) \<Rightarrow> nat" where
  "sort_Search n f = search 0 n f"

text \<open>\<^verbatim>\<open>slices.Insert(s, i, v)\<close>; the index given by the clock is at most the length.\<close>

definition slices_Insert :: "'a list \<Rightarrow> nat \<Rightarrow> 'a \<Rightarrow> 'a list" where
  "slices_Insert s i v = take i s @ v # drop i s"

text \<open>\<^verbatim>\<open>slices.Index(s, v)\<close>: the first index of \<open>v\<close>, \<open>None\<close> for Go's \<open>-1\<close>.\<close>

fun slices_Index :: "'a list \<Rightarrow> 'a \<Rightarrow> nat option" where
  "slices_Index [] v = None"
| "slices_Index (x # xs) v =
     (if x = v then Some 0 else map_option Suc (slices_Index xs v))"

text \<open>\<^verbatim>\<open>slices.Delete(s, i, j)\<close>.\<close>

definition slices_Delete :: "'a list \<Rightarrow> nat \<Rightarrow> nat \<Rightarrow> 'a list" where
  "slices_Delete s i j = take i s @ drop j s"

subsection \<open>Expirers\<close>

text \<open>
  The non-blocking send \<^verbatim>\<open>select { case f.c <- now: default: }\<close> on a channel of
  capacity one: the value is stored when the buffer is empty and dropped otherwise.
\<close>

definition trySend :: "instant \<Rightarrow> instant option \<Rightarrow> instant option" where
  "trySend now buf = (case buf of None \<Rightarrow> Some now | Some v \<Rightarrow> Some v)"

definition setExpiration :: "instant \<Rightarrow> expirer \<Rightarrow> expirer" where
  "setExpiration t e =
     (case e of
        FakeTimer c _ f \<Rightarrow> FakeTimer c t f
      | FakeTicker c _ p \<Rightarrow> FakeTicker c t p)"

definition set_d :: "duration \<Rightarrow> expirer \<Rightarrow> expirer" where
  "set_d p e =
     (case e of
        FakeTimer c t f \<Rightarrow> FakeTimer c t f
      | FakeTicker c t _ \<Rightarrow> FakeTicker c t p)"

definition set_chanbuf :: "instant option \<Rightarrow> expirer \<Rightarrow> expirer" where
  "set_chanbuf b e =
     (case e of
        FakeTimer _ t f \<Rightarrow> FakeTimer b t f
      | FakeTicker _ t p \<Rightarrow> FakeTicker b t p)"

text \<open>
  \<^verbatim>\<open>fakeTimer.expire\<close> (src/timer.go, lines 54-66) and \<^verbatim>\<open>fakeTicker.expire\<close>
  (part_001, lines 390-397), dispatched on the object the reference points to. The
  result is \<^verbatim>\<open>next *time.Duration\<close>: none for a timer, the period for a ticker.
\<close>

definition expire :: "ref \<Rightarrow> instant \<Rightarrow> world \<Rightarrow> duration option \<times> world" where
  "expire r now s =
     (let s' = s\<lparr>fired := fired s @ [(r, now, time s)]\<rparr> in
      case heap s r of
        FakeTimer c e f \<Rightarrow>
          (case f of
             Some g \<Rightarrow> (None, s'\<lparr>goroutines := goroutines s @ [g]\<rparr>)
           | None \<Rightarrow> (None, s'\<lparr>heap := (heap s)(r := FakeTimer (trySend now c) e f)\<rparr>))
      | FakeTicker c e p \<Rightarrow>
          (Some p, s'\<lparr>heap := (heap s)(r := FakeTicker (trySend now c) e p)\<rparr>))"

text \<open>
  A receive from the channel of a timer or ticker that holds a value, as the caller
  of \<^verbatim>\<open>Chan()\<close> does it (\<^verbatim>\<open><-timer.Chan()\<close> in the tests of src/timer.go).
\<close>

definition drain :: "ref \<Rightarrow> world \<Rightarrow> world" where
  "drain r s = s\<lparr>heap := (heap s)(r := set_chanbuf None (heap s r))\<rparr>"

subsection \<open>Operations on the clock state\<close>

text \<open>\<^verbatim>\<open>stopExpirer\<close> (part_001, lines 305-311).\<close>

definition stopExpirer :: "ref \<Rightarrow> world \<Rightarrow> bool \<times> world" where
  "stopExpirer e s =
     (case slices_Index (waiters s) e of
        Some idx \<Rightarrow> (True, s\<lparr>waiters := slices_Delete (waiters s) idx (idx + 1)\<rparr>)
      | None \<Rightarrow> (False, s))"

text \<open>\<^verbatim>\<open>FakeClock.stop\<close> (lines 297-302): \<^verbatim>\<open>stopExpirer\<close> under the lock.\<close>

definition stop :: "ref \<Rightarrow> world \<Rightarrow> bool \<times> world" where
  "stop e s = stopExpirer e s"

text \<open>
  \<^verbatim>\<open>setExpirer\<close> (part_001, lines 314-337). The expiration is written into the
  object before the search reads the queue. The closure given to
  \<^verbatim>\<open>slices.DeleteFunc\<close> closes the channel of every blocker it removes; the blockers
  that stay keep their order.
\<close>

definition setExpirer :: "ref \<Rightarrow> duration \<Rightarrow> world \<Rightarrow> world" where
  "setExpirer e d s =
     (if d \<le> 0 then snd (expire e (time s) s)
      else
        (let s1 = s\<lparr>heap := (heap s)(e := setExpiration (time s + d) (heap s e))\<rparr>;
             idx = sort_Search (length (waiters s1))
                     (\<lambda>i. expiration (heap s1 e) < expiration (heap s1 (waiters s1 ! i)));
             s2 = s1\<lparr>waiters := slices_Insert (waiters s1) idx e\<rparr>;
             cnt = int (length (waiters s2))
         in s2\<lparr>blockers := filter (\<lambda>b. \<not> count b \<le> cnt) (blockers s2),
               closed := closed s2 @ map ch (filter (\<lambda>b. count b \<le> cnt) (blockers s2))\<rparr>))"

text \<open>\<^verbatim>\<open>FakeClock.newBlocker\<close> (part_001, lines 286-294).\<close>

definition newBlocker :: "int \<Rightarrow> world \<Rightarrow> blocker option \<times> world" where
  "newBlocker n s =
     (if int (length (waiters s)) < n then
        (let b = \<lparr>count = n, ch = nextChan s\<rparr>
         in (Some b, s\<lparr>blockers := blockers s @ [b], nextChan := Suc (nextChan s)\<rparr>))
      else (None, s))"

text \<open>
  \<^verbatim>\<open>BlockUntilContextNotify\<close> (part_001, lines 271-282) returns \<^verbatim>\<open>nil\<close> at once when \<^verbatim>\<open>newBlocker\<close> gave no
  blocker, and otherwise only after a receive from the blocker's channel, which
  nothing is ever sent on: the receive proceeds once the channel is closed.
\<close>

definition blockUntil_returns :: "blocker option \<Rightarrow> world \<Rightarrow> bool" where
  "blockUntil_returns b s =
     (case b of None \<Rightarrow> True | Some b' \<Rightarrow> ch b' \<in> set (closed s))"

subsection \<open>Timers\<close>

text \<open>
  \<^verbatim>\<open>newFakeTimer\<close> (src/timer.go, lines 34-40), \<^verbatim>\<open>FakeClock.newTimer\<close>, \<^verbatim>\<open>NewTimer\<close>
  and \<^verbatim>\<open>AfterFunc\<close> (part_001, lines 193-214), \<^verbatim>\<open>fakeTimer.Reset\<close> and
  \<^verbatim>\<open>fakeTimer.Stop\<close> (src/timer.go, lines 44-52). Allocation takes the next unused
  reference.
\<close>

definition newFakeTimer :: "func option \<Rightarrow> world \<Rightarrow> ref \<times> world" where
  "newFakeTimer afterfunc s =
     (nextRef s,
      s\<lparr>heap := (heap s)(nextRef s := FakeTimer None 0 afterfunc),
        nextRef := Suc (nextRef s)\<rparr>)"

definition newTimer :: "duration \<Rightarrow> func option \<Rightarrow> world \<Rightarrow> (ref \<times> instant) \<times> world" where
  "newTimer d afterfunc s =
     (let (ft, s1) = newFakeTimer afterfunc s;
          s2 = setExpirer ft d s1
      in ((ft, expiration (heap s2 ft)), s2))"

definition NewTimer :: "duration \<Rightarrow> world \<Rightarrow> ref \<times> world" where
  "NewTimer d s = (let ((t, _), s') = newTimer d None s in (t, s'))"

definition AfterFunc :: "duration \<Rightarrow> func \<Rightarrow> world \<Rightarrow> ref \<times> world" where
  "AfterFunc d f s = (let ((t, _), s') = newTimer d (Some f) s in (t, s'))"

definition fakeTimer_Reset :: "ref \<Rightarrow> duration \<Rightarrow> world \<Rightarrow> bool \<times> world" where
  "fakeTimer_Reset f d s =
     (let (stopped, s1) = stopExpirer f s
      in (stopped, setExpirer f d s1))"

definition fakeTimer_Stop :: "ref \<Rightarrow> world \<Rightarrow> bool \<times> world" where
  "fakeTimer_Stop f s = stop f s"

subsection \<open>Tickers\<close>

text \<open>
  \<^verbatim>\<open>newFakeTicker\<close> (part_001, lines 371-377) and \<^verbatim>\<open>FakeClock.NewTicker\<close> (lines
  178-189), which panics when the duration is not positive.
\<close>

definition newFakeTicker :: "duration \<Rightarrow> world \<Rightarrow> ref \<times> world" where
  "newFakeTicker d s =
     (nextRef s,
      s\<lparr>heap := (heap s)(nextRef s := FakeTicker None 0 d),
        nextRef := Suc (nextRef s)\<rparr>)"

definition NewTicker :: "duration \<Rightarrow> world \<Rightarrow> error + (ref \<times> world)" where
  "NewTicker d s =
     (if d \<le> 0 then Inl NonPositiveInterval
      else (let (ft, s1) = newFakeTicker d s in Inr (ft, setExpirer ft d s1)))"

text \<open>
  \<^verbatim>\<open>fakeTicker.Reset\<close> (part_001, lines 381-386): the body assigns \<^verbatim>\<open>f.d\<close> and calls
  \<^verbatim>\<open>setExpirer\<close>. It has no branch that panics; the result type is that of
  \<open>NewTicker\<close>, so that the two can be compared. \<^verbatim>\<open>fakeTicker.Stop\<close> is line 388.
\<close>

definition fakeTicker_Reset :: "ref \<Rightarrow> duration \<Rightarrow> world \<Rightarrow> error + world" where
  "fakeTicker_Reset f d s =
     Inr (setExpirer f d (s\<lparr>heap := (heap s)(f := set_d d (heap s f))\<rparr>))"

definition fakeTicker_Stop :: "ref \<Rightarrow> world \<Rightarrow> world" where
  "fakeTicker_Stop f s = snd (stop f s)"

subsection \<open>Advance\<close>

text \<open>
  The loop of \<^verbatim>\<open>FakeClock.Advance\<close> (part_001, lines 230-250). The callbacks of timers run in goroutines of
  their own, which need the clock's lock to touch the state, so within one call the
  state changes by the loop alone. \<open>advance_body\<close> is one iteration of the loop.
\<close>

definition advance_body :: "world \<Rightarrow> world" where
  "advance_body s =
     (let w = hd (waiters s);
          s1 = s\<lparr>waiters := tl (waiters s)\<rparr>;
          now = expiration (heap s1 w);
          s2 = s1\<lparr>time := now\<rparr>;
          (nxt, s3) = expire w now s2
      in case nxt of Some d \<Rightarrow> setExpirer w d s3 | None \<Rightarrow> s3)"

function advance_loop :: "instant \<Rightarrow> world \<Rightarrow> world" where
  "advance_loop endt s =
     (if waiters s \<noteq> [] \<and> \<not> endt < expiration (heap s (hd (waiters s)))
      then advance_loop endt (advance_body s)
      else s)"
  by pat_completeness auto

definition Advance :: "duration \<Rightarrow> world \<Rightarrow> world" where
  "Advance d s = (let endt = time s + d in (advance_loop endt s)\<lparr>time := endt\<rparr>)"

text \<open>
  The quantity that decreases with every iteration of the loop: the length of the
  queue plus, for every object in the queue, the distance of its expiration from the
  end of the advance.
\<close>

definition advance_measure :: "instant \<times> world \<Rightarrow> nat" where
  "advance_measure =
     (\<lambda>(endt, s). length (waiters s) +
        (\<Sum>r\<in>set (waiters s). nat (endt + 1 - expiration (heap s r))))"

subsection \<open>Call sequences used below\<close>

text \<open>A clock created at instant 0 on which \<^verbatim>\<open>tk := NewTicker(5)\<close> was called.\<close>

definition one_ticker :: world where
  "one_ticker = snd (projr (NewTicker 5 (NewFakeClockAt 0)))"

text \<open>
  \<^verbatim>\<open>tk := NewTicker(5); tm := NewTimer(10); tk.Reset(20)\<close> on a clock created at
  instant 0. The ticker is object 0 and the timer is object 1.
\<close>

definition ticker_timer_reset :: world where
  "ticker_timer_reset = projr (fakeTicker_Reset 0 20 (snd (NewTimer 10 one_ticker)))"

text \<open>
  \<^verbatim>\<open>u := NewTicker(5); tk := NewTicker(5); u.Reset(25)\<close> on a clock created at
  instant 0. Ticker \<^verbatim>\<open>u\<close> is object 0 and ticker \<^verbatim>\<open>tk\<close> is object 1.
\<close>

definition two_tickers_reset :: world where
  "two_tickers_reset =
     projr (fakeTicker_Reset 0 25 (snd (projr (NewTicker 5 one_ticker))))"

subsection \<open>Blockers: the state the registry is kept in\<close>

text \<open>
  What holds of the blocker registry in every state the clock can be in: a registered
  blocker asks for more waiters than the queue holds, its channel is allocated and
  open, no two registered blockers share a channel, and no channel is closed twice.
\<close>

definition blk_ok :: "world \<Rightarrow> bool" where
  "blk_ok s \<longleftrightarrow>
     (\<forall>b\<in>set (blockers s).
        int (length (waiters s)) < count b \<and> ch b < nextChan s \<and> ch b \<notin> set (closed s)) \<and>
     distinct (map ch (blockers s)) \<and>
     (\<forall>c\<in>set (closed s). c < nextChan s) \<and>
     distinct (closed s)"

text \<open>
  The states that calls of the public interface lead to, from a new clock. A timer
  method is called on a timer that was allocated, a ticker method on a ticker.
\<close>

definition is_timer :: "expirer \<Rightarrow> bool" where
  "is_timer e = (case e of FakeTimer _ _ _ \<Rightarrow> True | FakeTicker _ _ _ \<Rightarrow> False)"

inductive reachable :: "world \<Rightarrow> bool" where
  r_init: "reachable (NewFakeClockAt t)"
| r_NewTimer: "reachable s \<Longrightarrow> reachable (snd (NewTimer d s))"
| r_AfterFunc: "reachable s \<Longrightarrow> reachable (snd (AfterFunc d g s))"
| r_NewTicker: "reachable s \<Longrightarrow> NewTicker d s = Inr (r, s') \<Longrightarrow> reachable s'"
| r_Timer_Reset: "reachable s \<Longrightarrow> f < nextRef s \<Longrightarrow> is_timer (heap s f) \<Longrightarrow>
     reachable (snd (fakeTimer_Reset f d s))"
| r_Timer_Stop: "reachable s \<Longrightarrow> f < nextRef s \<Longrightarrow> is_timer (heap s f) \<Longrightarrow>
     reachable (snd (fakeTimer_Stop f s))"
| r_Ticker_Reset: "reachable s \<Longrightarrow> f < nextRef s \<Longrightarrow> \<not> is_timer (heap s f) \<Longrightarrow>
     fakeTicker_Reset f d s = Inr s' \<Longrightarrow> reachable s'"
| r_Ticker_Stop: "reachable s \<Longrightarrow> f < nextRef s \<Longrightarrow> \<not> is_timer (heap s f) \<Longrightarrow>
     reachable (fakeTicker_Stop f s)"
| r_Advance: "reachable s \<Longrightarrow> reachable (Advance d s)"
| r_newBlocker: "reachable s \<Longrightarrow> reachable (snd (newBlocker n s))"
| r_drain: "reachable s \<Longrightarrow> f < nextRef s \<Longrightarrow> reachable (drain f s)"

text \<open>
  \<^verbatim>\<open>NewTimer(5)\<close> and then \<^verbatim>\<open>BlockUntil(2)\<close> on a clock created at instant 0: one
  waiter, and one blocker that waits for two.
\<close>

definition timer_and_blocker :: world where
  "timer_and_blocker = snd (newBlocker 2 (snd (NewTimer 5 (NewFakeClockAt 0))))"

text \<open>
  \<^verbatim>\<open>tm := NewTimer(5)\<close> on a clock created at instant 0, and the same clock after
  \<^verbatim>\<open>Advance(5); Advance(3)\<close>: the timer has fired at 5, nothing has received from its
  channel, and the time is 8.
\<close>

definition one_timer :: world where
  "one_timer = snd (NewTimer 5 (NewFakeClockAt 0))"

definition fired_timer :: world where
  "fired_timer = Advance 3 (Advance 5 one_timer)"

subsection \<open>Well-formed clocks\<close>

text \<open>
  The instants of the queue, in queue order. The queue is well formed when its
  instants are sorted and no object occurs in it twice; the clock is well formed when,
  in addition, every object in the queue has been allocated and expires after the
  current time. \<open>insert_index\<close> is the index that \<open>setExpirer\<close> computes in a queue
  that does not hold the expirer yet.
\<close>

definition instants :: "world \<Rightarrow> instant list" where
  "instants s = map (\<lambda>r. expiration (heap s r)) (waiters s)"

definition wf_queue :: "world \<Rightarrow> bool" where
  "wf_queue s \<longleftrightarrow> sorted (instants s) \<and> distinct (waiters s)"

definition insert_index :: "instant \<Rightarrow> world \<Rightarrow> nat" where
  "insert_index t s = sort_Search (length (waiters s)) (\<lambda>i. t < instants s ! i)"

definition wf_clock :: "world \<Rightarrow> bool" where
  "wf_clock s \<longleftrightarrow>
     wf_queue s \<and>
     (\<forall>r\<in>set (waiters s). r < nextRef s \<and> time s < expiration (heap s r))"

subsection \<open>Histories of firings\<close>

text \<open>What was fired between two states.\<close>

definition new_fired :: "world \<Rightarrow> world \<Rightarrow> (ref \<times> instant \<times> instant) list" where
  "new_fired s s' = drop (length (fired s)) (fired s')"

text \<open>\<open>before a b xs\<close>: \<open>b\<close> occurs in \<open>xs\<close> after the first occurrence of \<open>a\<close>.\<close>

fun before :: "'a \<Rightarrow> 'a \<Rightarrow> 'a list \<Rightarrow> bool" where
  "before a b [] = False"
| "before a b (x # xs) = (if x = a then b \<in> set xs else before a b xs)"

text \<open>One round of the ticker scenario: advance by the period, then receive the tick.\<close>

definition tick_round :: "duration \<Rightarrow> ref \<Rightarrow> world \<Rightarrow> world" where
  "tick_round p r s = drain r (Advance p s)"

text \<open>
  A ticker of period \<open>p\<close> that is in the queue of a well-formed clock and is due one
  period from now.
\<close>

definition ticker_phase :: "world \<Rightarrow> ref \<Rightarrow> duration \<Rightarrow> bool" where
  "ticker_phase s r p \<longleftrightarrow>
     wf_clock s \<and> r \<in> set (waiters s) \<and> 0 < p \<and>
     (case heap s r of
        FakeTimer _ _ _ \<Rightarrow> False
      | FakeTicker _ e q \<Rightarrow> e = time s + p \<and> q = p)"

text \<open>
  The states that calls of the public interface lead to when no ticker is reset while
  it is in the queue.
\<close>

inductive reachable_idle_reset :: "world \<Rightarrow> bool" where
  i_init: "reachable_idle_reset (NewFakeClockAt t)"
| i_NewTimer: "reachable_idle_reset s \<Longrightarrow> reachable_idle_reset (snd (NewTimer d s))"
| i_AfterFunc: "reachable_idle_reset s \<Longrightarrow> reachable_idle_reset (snd (AfterFunc d g s))"
| i_NewTicker: "reachable_idle_reset s \<Longrightarrow> NewTicker d s = Inr (r, s') \<Longrightarrow>
     reachable_idle_reset s'"
| i_Timer_Reset: "reachable_idle_reset s \<Longrightarrow> f < nextRef s \<Longrightarrow> is_timer (heap s f) \<Longrightarrow>
     reachable_idle_reset (snd (fakeTimer_Reset f d s))"
| i_Timer_Stop: "reachable_idle_reset s \<Longrightarrow> f < nextRef s \<Longrightarrow> is_timer (heap s f) \<Longrightarrow>
     reachable_idle_reset (snd (fakeTimer_Stop f s))"
| i_Ticker_Reset: "reachable_idle_reset s \<Longrightarrow> f < nextRef s \<Longrightarrow> \<not> is_timer (heap s f) \<Longrightarrow>
     f \<notin> set (waiters s) \<Longrightarrow> fakeTicker_Reset f d s = Inr s' \<Longrightarrow> reachable_idle_reset s'"
| i_Ticker_Stop: "reachable_idle_reset s \<Longrightarrow> f < nextRef s \<Longrightarrow> \<not> is_timer (heap s f) \<Longrightarrow>
     reachable_idle_reset (fakeTicker_Stop f s)"
| i_Advance: "reachable_idle_reset s \<Longrightarrow> reachable_idle_reset (Advance d s)"
| i_newBlocker: "reachable_idle_reset s \<Longrightarrow> reachable_idle_reset (snd (newBlocker n s))"
| i_drain: "reachable_idle_reset s \<Longrightarrow> f < nextRef s \<Longrightarrow> reachable_idle_reset (drain f s)"

section \<open>Facts about the model\<close>

subsection \<open>Binary search and slices\<close>

lemma search_done: "\<not> i < j \<Longrightarrow> search i j f = i"
  by (subst search.simps) simp

lemma search_right:
  "i < j \<Longrightarrow> \<not> f ((i + j) div 2) \<Longrightarrow> search i j f = search ((i + j) div 2 + 1) j f"
  by (subst search.simps) (simp add: Let_def)

lemma search_left:
  "i < j \<Longrightarrow> f ((i + j) div 2) \<Longrightarrow> search i j f = search i ((i + j) div 2) f"
  by (subst search.simps) (simp add: Let_def)

lemma search_bounds: "i \<le> j \<Longrightarrow> i \<le> search i j f \<and> search i j f \<le> j"
proof (induction i j f rule: search.induct)
  case (1 i j f)
  show ?case
  proof (cases "i < j")
    case False
    with "1.prems" show ?thesis by (simp add: search_done)
  next
    case True
    let ?h = "(i + j) div 2"
    have h: "i \<le> ?h" "?h < j" using True by auto
    show ?thesis
    proof (cases "f ?h")
      case fh: True
      have nn: "\<not> \<not> f ?h" using fh by simp
      from "1.IH"(2)[OF True refl nn h(1)] h show ?thesis
        by (simp add: search_left[of i j f, OF True fh])
    next
      case fh: False
      have le: "?h + 1 \<le> j" using h by simp
      from "1.IH"(1)[OF True refl fh le] h show ?thesis
        by (simp add: search_right[of i j f, OF True fh])
    qed
  qed
qed

lemma sort_Search_le: "sort_Search n f \<le> n"
  using search_bounds[of 0 n f] by (simp add: sort_Search_def)

lemma set_slices_Insert [simp]: "set (slices_Insert xs i v) = insert v (set xs)"
proof -
  have "set (take i xs) \<union> set (drop i xs) = set xs"
    by (metis append_take_drop_id set_append)
  then show ?thesis by (auto simp: slices_Insert_def)
qed

lemma length_slices_Insert [simp]: "length (slices_Insert xs i v) = Suc (length xs)"
  by (simp add: slices_Insert_def)

subsection \<open>What \<open>expire\<close> and \<open>setExpirer\<close> change\<close>

lemma expire_waiters [simp]: "waiters (snd (expire r now s)) = waiters s"
  by (simp add: expire_def Let_def split: expirer.splits option.splits)

lemma expire_time [simp]: "time (snd (expire r now s)) = time s"
  by (simp add: expire_def Let_def split: expirer.splits option.splits)

lemma expire_blockers [simp]: "blockers (snd (expire r now s)) = blockers s"
  by (simp add: expire_def Let_def split: expirer.splits option.splits)

lemma expire_closed [simp]: "closed (snd (expire r now s)) = closed s"
  by (simp add: expire_def Let_def split: expirer.splits option.splits)

lemma expire_nextChan [simp]: "nextChan (snd (expire r now s)) = nextChan s"
  by (simp add: expire_def Let_def split: expirer.splits option.splits)

lemma expire_nextRef [simp]: "nextRef (snd (expire r now s)) = nextRef s"
  by (simp add: expire_def Let_def split: expirer.splits option.splits)

lemma expire_expiration [simp]:
  "expiration (heap (snd (expire r now s)) x) = expiration (heap s x)"
  by (simp add: expire_def Let_def split: expirer.splits option.splits)

lemma expiration_setExpiration [simp]: "expiration (setExpiration t e) = t"
  by (simp add: setExpiration_def split: expirer.splits)

lemma setExpirer_nonpos: "d \<le> 0 \<Longrightarrow> setExpirer e d s = snd (expire e (time s) s)"
  by (simp add: setExpirer_def)

lemma setExpirer_pos_waiters:
  "0 < d \<Longrightarrow> set (waiters (setExpirer e d s)) = insert e (set (waiters s))"
  by (simp add: setExpirer_def Let_def)

lemma setExpirer_pos_length:
  "0 < d \<Longrightarrow> length (waiters (setExpirer e d s)) = Suc (length (waiters s))"
  by (simp add: setExpirer_def Let_def)

lemma setExpirer_pos_expiration:
  "0 < d \<Longrightarrow> expiration (heap (setExpirer e d s) x) =
     (if x = e then time s + d else expiration (heap s x))"
  by (simp add: setExpirer_def Let_def)

lemma setExpirer_time [simp]: "time (setExpirer e d s) = time s"
  by (simp add: setExpirer_def Let_def)

subsection \<open>The loop of \<open>Advance\<close> terminates\<close>

lemma advance_body_timer:
  assumes "heap s (hd (waiters s)) = FakeTimer c e f"
  shows "waiters (advance_body s) = tl (waiters s)"
    and "expiration (heap (advance_body s) x) = expiration (heap s x)"
  using assms
  by (simp_all add: advance_body_def expire_def Let_def split: option.splits)

lemma advance_body_ticker_nonpos:
  assumes "heap s (hd (waiters s)) = FakeTicker c e p" "p \<le> 0"
  shows "waiters (advance_body s) = tl (waiters s)"
    and "expiration (heap (advance_body s) x) = expiration (heap s x)"
  using assms
  by (simp_all add: advance_body_def expire_def Let_def setExpirer_nonpos split: option.splits)

lemma advance_body_ticker_pos:
  assumes "heap s (hd (waiters s)) = FakeTicker c e p" "0 < p"
  shows "set (waiters (advance_body s)) = insert (hd (waiters s)) (set (tl (waiters s)))"
    and "length (waiters (advance_body s)) = Suc (length (tl (waiters s)))"
    and "expiration (heap (advance_body s) x) =
           (if x = hd (waiters s) then e + p else expiration (heap s x))"
  using assms
  by (simp_all add: advance_body_def expire_def Let_def setExpirer_pos_waiters
        setExpirer_pos_length setExpirer_pos_expiration)

text \<open>
  A timer, and a ticker whose period is not positive, leave the queue for good. A
  ticker of positive period comes back with a later expiration, and every entry that
  points to it moves with it.
\<close>

lemma advance_body_decreases:
  assumes ne: "waiters s \<noteq> []"
    and due: "\<not> endt < expiration (heap s (hd (waiters s)))"
  shows "advance_measure (endt, advance_body s) < advance_measure (endt, s)"
proof -
  let ?w = "hd (waiters s)"
  let ?g = "\<lambda>t r. nat (endt + 1 - expiration (heap t r))"
  have ws: "waiters s = ?w # tl (waiters s)" using ne by simp
  have sub: "set (tl (waiters s)) \<subseteq> set (waiters s)"
    by (metis ws set_subset_Cons)
  have len: "length (tl (waiters s)) < length (waiters s)" using ne by simp
  have shrink: "advance_measure (endt, advance_body s) < advance_measure (endt, s)"
    if w: "waiters (advance_body s) = tl (waiters s)"
      and e: "\<And>x. expiration (heap (advance_body s) x) = expiration (heap s x)"
  proof -
    have "(\<Sum>r\<in>set (tl (waiters s)). ?g s r) \<le> (\<Sum>r\<in>set (waiters s). ?g s r)"
      by (rule sum_mono2) (use sub in auto)
    with len show ?thesis by (simp add: advance_measure_def w e)
  qed
  show ?thesis
  proof (cases "heap s ?w")
    case (FakeTimer c e f)
    show ?thesis by (rule shrink) (simp_all add: advance_body_timer[OF FakeTimer])
  next
    case (FakeTicker c e p)
    show ?thesis
    proof (cases "0 < p")
      case False
      then have "p \<le> 0" by simp
      show ?thesis
        by (rule shrink) (simp_all add: advance_body_ticker_nonpos[OF FakeTicker \<open>p \<le> 0\<close>])
    next
      case True
      note tp = advance_body_ticker_pos[OF FakeTicker True]
      have set_eq: "set (waiters (advance_body s)) = set (waiters s)"
        using tp(1) ws by (metis list.simps(15))
      have len_eq: "length (waiters (advance_body s)) = length (waiters s)"
        using tp(2) ne by simp
      have e_le: "e \<le> endt" using due FakeTicker by simp
      have "(\<Sum>r\<in>set (waiters s). ?g (advance_body s) r) < (\<Sum>r\<in>set (waiters s). ?g s r)"
      proof (rule sum_strict_mono_ex1)
        show "finite (set (waiters s))" by simp
        show "\<forall>r\<in>set (waiters s). ?g (advance_body s) r \<le> ?g s r"
          using True FakeTicker by (auto simp: tp(3))
        have "?w \<in> set (waiters s)" using ne by simp
        moreover have "?g (advance_body s) ?w < ?g s ?w"
          using True e_le FakeTicker by (simp add: tp(3))
        ultimately show "\<exists>r\<in>set (waiters s). ?g (advance_body s) r < ?g s r" by blast
      qed
      then show ?thesis by (simp add: advance_measure_def set_eq len_eq)
    qed
  qed
qed

termination advance_loop
  by (relation "measure advance_measure") (simp_all add: advance_body_decreases)

declare advance_loop.simps [simp del]

subsection \<open>Removal from the queue\<close>

lemma slices_Index_None: "slices_Index xs v = None \<longleftrightarrow> v \<notin> set xs"
  by (induction xs) auto

lemma slices_Delete_Index:
  "slices_Index xs v = Some i \<Longrightarrow> slices_Delete xs i (Suc i) = remove1 v xs"
proof (induction xs arbitrary: i)
  case Nil
  then show ?case by simp
next
  case (Cons x xs)
  show ?case
  proof (cases "x = v")
    case True
    with Cons.prems show ?thesis by (simp add: slices_Delete_def)
  next
    case False
    with Cons.prems obtain j where j: "slices_Index xs v = Some j" "i = Suc j" by auto
    from Cons.IH[OF j(1)] False j(2) show ?thesis by (simp add: slices_Delete_def)
  qed
qed

lemma stopExpirer_eq:
  "stopExpirer e s = (e \<in> set (waiters s), s\<lparr>waiters := remove1 e (waiters s)\<rparr>)"
proof (cases "slices_Index (waiters s) e")
  case None
  then have "e \<notin> set (waiters s)" by (simp add: slices_Index_None)
  then show ?thesis using None by (simp add: stopExpirer_def remove1_idem)
next
  case (Some i)
  then have "e \<in> set (waiters s)"
    using slices_Index_None[of "waiters s" e] by auto
  then show ?thesis using Some by (simp add: stopExpirer_def slices_Delete_Index)
qed

subsection \<open>The loop of \<open>Advance\<close>, unfolded once\<close>

lemma advance_loop_stop:
  "\<not> (waiters s \<noteq> [] \<and> \<not> endt < expiration (heap s (hd (waiters s)))) \<Longrightarrow>
     advance_loop endt s = s"
  by (subst advance_loop.simps) auto

lemma advance_loop_step:
  "waiters s \<noteq> [] \<and> \<not> endt < expiration (heap s (hd (waiters s))) \<Longrightarrow>
     advance_loop endt s = advance_loop endt (advance_body s)"
  by (subst advance_loop.simps) simp

lemma advance_body_unfold:
  "advance_body s =
     (let w = hd (waiters s);
          x = expire w (expiration (heap s w))
                (s\<lparr>waiters := tl (waiters s), time := expiration (heap s w)\<rparr>)
      in case fst x of Some d \<Rightarrow> setExpirer w d (snd x) | None \<Rightarrow> snd x)"
  by (simp add: advance_body_def Let_def split_def split: option.splits)

subsection \<open>The blocker registry\<close>

lemma blk_ok_cong:
  assumes "length (waiters t) \<le> length (waiters s)" "blockers t = blockers s"
    "closed t = closed s" "nextChan t = nextChan s" "blk_ok s"
  shows "blk_ok t"
  using assms unfolding blk_ok_def by force

lemma blk_ok_NewFakeClockAt: "blk_ok (NewFakeClockAt t)"
  by (simp add: blk_ok_def NewFakeClockAt_def)

lemma blk_ok_expire: "blk_ok s \<Longrightarrow> blk_ok (snd (expire r now s))"
  by (rule blk_ok_cong[of _ s]) simp_all

lemma setExpirer_pos_blockers:
  "0 < d \<Longrightarrow> blockers (setExpirer e d s) =
     filter (\<lambda>b. \<not> count b \<le> int (length (waiters s)) + 1) (blockers s)"
  by (simp add: setExpirer_def Let_def add.commute)

lemma setExpirer_pos_closed:
  "0 < d \<Longrightarrow> closed (setExpirer e d s) =
     closed s @ map ch (filter (\<lambda>b. count b \<le> int (length (waiters s)) + 1) (blockers s))"
  by (simp add: setExpirer_def Let_def add.commute)

lemma setExpirer_nextChan [simp]: "nextChan (setExpirer e d s) = nextChan s"
  by (simp add: setExpirer_def Let_def)

lemma setExpirer_nonpos_frame:
  "d \<le> 0 \<Longrightarrow> blockers (setExpirer e d s) = blockers s \<and> closed (setExpirer e d s) = closed s
     \<and> waiters (setExpirer e d s) = waiters s"
  by (simp add: setExpirer_nonpos)

lemma blk_ok_setExpirer:
  assumes "blk_ok s"
  shows "blk_ok (setExpirer e d s)"
proof (cases "0 < d")
  case False
  then have "d \<le> 0" by simp
  then show ?thesis using assms by (simp add: setExpirer_nonpos blk_ok_expire)
next
  case True
  let ?n = "int (length (waiters s)) + 1"
  have dist: "distinct (map ch (blockers s))" using assms by (simp add: blk_ok_def)
  have d1: "distinct (map ch (filter (\<lambda>b. \<not> count b \<le> ?n) (blockers s)))"
    using dist by (rule distinct_map_filter)
  have d2: "distinct (map ch (filter (\<lambda>b. count b \<le> ?n) (blockers s)))"
    using dist by (rule distinct_map_filter)
  have inj: "inj_on ch (set (blockers s))"
    using dist by (simp add: distinct_map)
  have sep: "ch b \<noteq> ch b'" if "b \<in> set (blockers s)" "b' \<in> set (blockers s)"
      "\<not> count b \<le> ?n" "count b' \<le> ?n" for b b'
    using inj that by (auto dest: inj_onD)
  show ?thesis
    unfolding blk_ok_def
    using assms True d1 d2 sep
    by (auto simp: setExpirer_pos_blockers setExpirer_pos_closed setExpirer_pos_length blk_ok_def)
qed

lemma blk_ok_stopExpirer: "blk_ok s \<Longrightarrow> blk_ok (snd (stopExpirer e s))"
  by (rule blk_ok_cong[of _ s]) (simp_all add: stopExpirer_eq length_remove1)

lemma setExpirer_no_notify:
  assumes "\<forall>b\<in>set (blockers s). int (length (waiters s)) + 1 < count b"
  shows "blockers (setExpirer e d s) = blockers s \<and> closed (setExpirer e d s) = closed s"
proof (cases "0 < d")
  case False
  then show ?thesis by (simp add: setExpirer_nonpos)
next
  case True
  have "filter (\<lambda>b. \<not> count b \<le> int (length (waiters s)) + 1) (blockers s) = blockers s"
    using assms by (auto simp: filter_id_conv)
  moreover have "filter (\<lambda>b. count b \<le> int (length (waiters s)) + 1) (blockers s) = []"
    using assms by (auto simp: filter_empty_conv)
  ultimately show ?thesis
    using True by (simp add: setExpirer_pos_blockers setExpirer_pos_closed)
qed

lemma setExpirer_length_le: "length (waiters (setExpirer e d s)) \<le> Suc (length (waiters s))"
  by (cases "0 < d") (simp_all add: setExpirer_pos_length setExpirer_nonpos)

lemma advance_body_frame:
  assumes ne: "waiters s \<noteq> []"
    and cnt: "\<forall>b\<in>set (blockers s). int (length (waiters s)) < count b"
  shows "blockers (advance_body s) = blockers s"
    and "closed (advance_body s) = closed s"
    and "nextChan (advance_body s) = nextChan s"
    and "length (waiters (advance_body s)) \<le> length (waiters s)"
proof -
  let ?w = "hd (waiters s)"
  let ?x = "expire ?w (expiration (heap s ?w))
              (s\<lparr>waiters := tl (waiters s), time := expiration (heap s ?w)\<rparr>)"
  have len: "Suc (length (waiters (snd ?x))) = length (waiters s)" using ne by simp
  have bl: "blockers (snd ?x) = blockers s" "closed (snd ?x) = closed s"
    "nextChan (snd ?x) = nextChan s" by simp_all
  have "\<forall>b\<in>set (blockers (snd ?x)). int (length (waiters (snd ?x))) + 1 < count b"
    using cnt len bl(1) by auto
  note nn = setExpirer_no_notify[OF this]
  show "blockers (advance_body s) = blockers s"
    using nn bl by (simp add: advance_body_unfold Let_def split: option.splits)
  show "closed (advance_body s) = closed s"
    using nn bl by (simp add: advance_body_unfold Let_def split: option.splits)
  show "nextChan (advance_body s) = nextChan s"
    using bl by (simp add: advance_body_unfold Let_def split: option.splits)
  show "length (waiters (advance_body s)) \<le> length (waiters s)"
  proof (cases "fst ?x")
    case None
    then show ?thesis using len by (simp add: advance_body_unfold Let_def)
  next
    case (Some d)
    then show ?thesis
      using len setExpirer_length_le[of ?w d "snd ?x"]
      by (simp add: advance_body_unfold Let_def)
  qed
qed

lemma blk_ok_count: "blk_ok s \<Longrightarrow> \<forall>b\<in>set (blockers s). int (length (waiters s)) < count b"
  by (simp add: blk_ok_def)

lemma blk_ok_advance_body: "waiters s \<noteq> [] \<Longrightarrow> blk_ok s \<Longrightarrow> blk_ok (advance_body s)"
  by (rule blk_ok_cong[of _ s]) (simp_all add: advance_body_frame blk_ok_count)

lemma advance_loop_frame:
  "blk_ok s \<Longrightarrow>
     blk_ok (advance_loop endt s) \<and>
     blockers (advance_loop endt s) = blockers s \<and>
     closed (advance_loop endt s) = closed s \<and>
     nextChan (advance_loop endt s) = nextChan s \<and>
     length (waiters (advance_loop endt s)) \<le> length (waiters s)"
proof (induction endt s rule: advance_loop.induct)
  case (1 endt s)
  show ?case
  proof (cases "waiters s \<noteq> [] \<and> \<not> endt < expiration (heap s (hd (waiters s)))")
    case False
    then show ?thesis using "1.prems" by (simp add: advance_loop_stop)
  next
    case True
    then have ne: "waiters s \<noteq> []" by simp
    have ok: "blk_ok (advance_body s)" using ne "1.prems" by (rule blk_ok_advance_body)
    note fr = advance_body_frame[OF ne blk_ok_count[OF "1.prems"]]
    define t where "t = advance_loop endt (advance_body s)"
    have eq: "advance_loop endt s = t"
      unfolding t_def using True by (rule advance_loop_step)
    from "1.IH"[OF True ok, folded t_def] fr show ?thesis by (simp add: eq)
  qed
qed

lemma Advance_frame:
  assumes "blk_ok s"
  shows "blk_ok (Advance d s)" "blockers (Advance d s) = blockers s"
    "closed (Advance d s) = closed s"
proof -
  note fr = advance_loop_frame[OF assms, of "time s + d"]
  show "blk_ok (Advance d s)"
    by (rule blk_ok_cong[of _ "advance_loop (time s + d) s"])
       (use fr in \<open>simp_all add: Advance_def Let_def\<close>)
  show "blockers (Advance d s) = blockers s" using fr by (simp add: Advance_def Let_def)
  show "closed (Advance d s) = closed s" using fr by (simp add: Advance_def Let_def)
qed

lemma newBlocker_enough:
  "n \<le> int (length (waiters s)) \<Longrightarrow> newBlocker n s = (None, s)"
  by (simp add: newBlocker_def)

lemma newBlocker_register:
  "int (length (waiters s)) < n \<Longrightarrow>
     newBlocker n s =
       (Some \<lparr>count = n, ch = nextChan s\<rparr>,
        s\<lparr>blockers := blockers s @ [\<lparr>count = n, ch = nextChan s\<rparr>],
          nextChan := Suc (nextChan s)\<rparr>)"
  by (simp add: newBlocker_def Let_def)

lemma blk_ok_newBlocker: "blk_ok s \<Longrightarrow> blk_ok (snd (newBlocker n s))"
  by (cases "int (length (waiters s)) < n")
     (auto simp: newBlocker_register newBlocker_enough blk_ok_def less_Suc_eq)

lemma blk_ok_heap [simp]: "blk_ok (s\<lparr>heap := h\<rparr>) = blk_ok s"
  by (simp add: blk_ok_def)

lemma blk_ok_nextRef [simp]: "blk_ok (s\<lparr>nextRef := n\<rparr>) = blk_ok s"
  by (simp add: blk_ok_def)

lemma blk_ok_newTimer: "blk_ok s \<Longrightarrow> blk_ok (snd (newTimer d a s))"
  by (simp add: newTimer_def newFakeTimer_def Let_def blk_ok_setExpirer)

lemma snd_NewTimer: "snd (NewTimer d s) = snd (newTimer d None s)"
  by (simp add: NewTimer_def split_def Let_def)

lemma snd_AfterFunc: "snd (AfterFunc d g s) = snd (newTimer d (Some g) s)"
  by (simp add: AfterFunc_def split_def Let_def)

lemma blk_ok_NewTicker: "blk_ok s \<Longrightarrow> NewTicker d s = Inr (r, s') \<Longrightarrow> blk_ok s'"
  by (auto simp: NewTicker_def newFakeTicker_def Let_def blk_ok_setExpirer split: if_splits)

lemma blk_ok_fakeTimer_Reset: "blk_ok s \<Longrightarrow> blk_ok (snd (fakeTimer_Reset f d s))"
  by (simp add: fakeTimer_Reset_def split_def Let_def blk_ok_setExpirer blk_ok_stopExpirer)

lemma blk_ok_fakeTicker_Reset: "blk_ok s \<Longrightarrow> fakeTicker_Reset f d s = Inr s' \<Longrightarrow> blk_ok s'"
  by (auto simp: fakeTicker_Reset_def blk_ok_setExpirer)

lemma reachable_blk_ok: "reachable s \<Longrightarrow> blk_ok s"
proof (induction rule: reachable.induct)
  case (r_init t)
  show ?case by (rule blk_ok_NewFakeClockAt)
next
  case (r_NewTimer s d)
  then show ?case by (simp add: snd_NewTimer blk_ok_newTimer)
next
  case (r_AfterFunc s d g)
  then show ?case by (simp add: snd_AfterFunc blk_ok_newTimer)
next
  case (r_NewTicker s d r s')
  then show ?case by (blast intro: blk_ok_NewTicker)
next
  case (r_Timer_Reset s f d)
  then show ?case by (simp add: blk_ok_fakeTimer_Reset)
next
  case (r_Timer_Stop s f)
  then show ?case by (simp add: fakeTimer_Stop_def stop_def blk_ok_stopExpirer)
next
  case (r_Ticker_Reset s f d s')
  then show ?case by (blast intro: blk_ok_fakeTicker_Reset)
next
  case (r_Ticker_Stop s f)
  then show ?case by (simp add: fakeTicker_Stop_def stop_def blk_ok_stopExpirer)
next
  case (r_Advance s d)
  then show ?case by (simp add: Advance_frame)
next
  case (r_newBlocker s n)
  then show ?case by (simp add: blk_ok_newBlocker)
next
  case (r_drain s f)
  then show ?case by (simp add: drain_def)
qed

lemma blk_ok_waiting:
  assumes "blk_ok s" "b \<in> set (blockers s)"
  shows "int (length (waiters s)) < count b" "\<not> blockUntil_returns (Some b) s"
  using assms by (auto simp: blk_ok_def blockUntil_returns_def)

lemma newBlocker_waits:
  assumes "blk_ok s" "int (length (waiters s)) < n"
  shows "\<not> blockUntil_returns (fst (newBlocker n s)) (snd (newBlocker n s))"
  using assms by (auto simp: newBlocker_register blockUntil_returns_def blk_ok_def)

lemma setExpirer_notifies:
  assumes ok: "blk_ok s" and b: "b \<in> set (blockers s)" and d: "0 < d"
  shows "if count b \<le> int (length (waiters (setExpirer e d s)))
         then b \<notin> set (blockers (setExpirer e d s)) \<and>
              blockUntil_returns (Some b) (setExpirer e d s)
         else b \<in> set (blockers (setExpirer e d s)) \<and>
              \<not> blockUntil_returns (Some b) (setExpirer e d s)"
proof -
  let ?n = "int (length (waiters s)) + 1"
  have len: "int (length (waiters (setExpirer e d s))) = ?n"
    using d by (simp add: setExpirer_pos_length)
  have inj: "inj_on ch (set (blockers s))"
    using ok by (simp add: blk_ok_def distinct_map)
  have notcl: "ch b \<notin> set (closed s)" using ok b by (simp add: blk_ok_def)
  show ?thesis
  proof (cases "count b \<le> ?n")
    case True
    then show ?thesis
      using b d by (auto simp: len setExpirer_pos_blockers setExpirer_pos_closed
          blockUntil_returns_def)
  next
    case False
    have "ch b \<noteq> ch b'" if "b' \<in> set (blockers s)" "count b' \<le> ?n" for b'
      using inj b that False by (auto dest: inj_onD)
    then show ?thesis
      using False b d notcl
      by (auto simp: len setExpirer_pos_blockers setExpirer_pos_closed blockUntil_returns_def)
  qed
qed

subsection \<open>Timers scheduled with a duration that is not positive\<close>

lemma newTimer_nonpos:
  assumes "d \<le> 0"
  shows "newTimer d a s =
     ((nextRef s, 0),
      snd (expire (nextRef s) (time s)
             (s\<lparr>heap := (heap s)(nextRef s := FakeTimer None 0 a),
                 nextRef := Suc (nextRef s)\<rparr>)))"
  using assms
  by (simp add: newTimer_def newFakeTimer_def Let_def setExpirer_nonpos)

lemma NewTimer_nonpos:
  assumes "d \<le> 0"
  shows "fst (NewTimer d s) = nextRef s"
    and "waiters (snd (NewTimer d s)) = waiters s"
    and "time (snd (NewTimer d s)) = time s"
    and "chanbuf (heap (snd (NewTimer d s)) (nextRef s)) = Some (time s)"
    and "fired (snd (NewTimer d s)) = fired s @ [(nextRef s, time s, time s)]"
  using assms
  by (simp_all add: NewTimer_def newTimer_nonpos Let_def expire_def trySend_def)

lemma AfterFunc_nonpos:
  assumes "d \<le> 0"
  shows "fst (AfterFunc d g s) = nextRef s"
    and "waiters (snd (AfterFunc d g s)) = waiters s"
    and "time (snd (AfterFunc d g s)) = time s"
    and "goroutines (snd (AfterFunc d g s)) = goroutines s @ [g]"
    and "fired (snd (AfterFunc d g s)) = fired s @ [(nextRef s, time s, time s)]"
  using assms
  by (simp_all add: AfterFunc_def newTimer_nonpos Let_def expire_def)

lemma fakeTimer_Reset_nonpos:
  assumes "d \<le> 0" and "heap s f = FakeTimer c e a"
  shows "fst (fakeTimer_Reset f d s) = (f \<in> set (waiters s))"
    and "waiters (snd (fakeTimer_Reset f d s)) = remove1 f (waiters s)"
    and "time (snd (fakeTimer_Reset f d s)) = time s"
    and "fired (snd (fakeTimer_Reset f d s)) = fired s @ [(f, time s, time s)]"
    and "(case a of
            Some g \<Rightarrow> goroutines (snd (fakeTimer_Reset f d s)) = goroutines s @ [g] \<and>
                       chanbuf (heap (snd (fakeTimer_Reset f d s)) f) = c
          | None \<Rightarrow> goroutines (snd (fakeTimer_Reset f d s)) = goroutines s \<and>
                    chanbuf (heap (snd (fakeTimer_Reset f d s)) f) =
                      (case c of None \<Rightarrow> Some (time s) | Some v \<Rightarrow> Some v))"
  using assms
  by (simp_all add: fakeTimer_Reset_def stopExpirer_eq setExpirer_nonpos expire_def
        trySend_def Let_def split: option.splits)

subsection \<open>Binary search in a sorted queue\<close>

lemma search_partition:
  assumes "i \<le> j" and "\<forall>a b. i \<le> a \<and> a \<le> b \<and> b < j \<longrightarrow> f a \<longrightarrow> f b"
  shows "(\<forall>a. i \<le> a \<and> a < search i j f \<longrightarrow> \<not> f a) \<and>
         (\<forall>a. search i j f \<le> a \<and> a < j \<longrightarrow> f a)"
  using assms
proof (induction i j f rule: search.induct)
  case (1 i j f)
  have mono: "f b" if "i \<le> a" "a \<le> b" "b < j" "f a" for a b
    using "1.prems"(2) that by blast
  show ?case
  proof (cases "i < j")
    case False
    then show ?thesis using "1.prems"(1) by (auto simp: search_done)
  next
    case True
    let ?h = "(i + j) div 2"
    have h: "i \<le> ?h" "?h < j" using True by auto
    show ?thesis
    proof (cases "f ?h")
      case fh: True
      have eq: "search i j f = search i ?h f" using True fh by (rule search_left)
      have nn: "\<not> \<not> f ?h" using fh by simp
      have mono': "\<forall>a b. i \<le> a \<and> a \<le> b \<and> b < ?h \<longrightarrow> f a \<longrightarrow> f b"
      proof (intro allI impI)
        fix a b assume "i \<le> a \<and> a \<le> b \<and> b < ?h" "f a"
        then show "f b" using mono[of a b] h by simp
      qed
      note IH = "1.IH"(2)[OF True refl nn h(1) mono']
      have up: "f a" if "?h \<le> a" "a < j" for a
        using mono[of ?h a] h fh that by simp
      have "f a" if "search i ?h f \<le> a" "a < j" for a
      proof (cases "a < ?h")
        case True
        then show ?thesis using IH that by blast
      next
        case False
        then show ?thesis using up that by simp
      qed
      then show ?thesis unfolding eq using IH by blast
    next
      case fh: False
      have eq: "search i j f = search (?h + 1) j f" using True fh by (rule search_right)
      have le: "?h + 1 \<le> j" using h by simp
      have mono': "\<forall>a b. ?h + 1 \<le> a \<and> a \<le> b \<and> b < j \<longrightarrow> f a \<longrightarrow> f b"
      proof (intro allI impI)
        fix a b assume "?h + 1 \<le> a \<and> a \<le> b \<and> b < j" "f a"
        then show "f b" using mono[of a b] h by simp
      qed
      note IH = "1.IH"(1)[OF True refl fh le mono']
      have low: "\<not> f a" if "i \<le> a" "a \<le> ?h" for a
        using mono[of a ?h] h fh that by blast
      have "\<not> f a" if "i \<le> a" "a < search (?h + 1) j f" for a
      proof (cases "a \<le> ?h")
        case True
        then show ?thesis using low that by blast
      next
        case False
        then have "?h + 1 \<le> a" by simp
        then show ?thesis using IH that by blast
      qed
      then show ?thesis unfolding eq using IH by blast
    qed
  qed
qed

lemma sort_Search_sorted:
  assumes "sorted ks"
  shows "(\<forall>a < sort_Search (length ks) (\<lambda>i. t < ks ! i). ks ! a \<le> t) \<and>
         (\<forall>a. sort_Search (length ks) (\<lambda>i. t < ks ! i) \<le> a \<and> a < length ks \<longrightarrow> t < ks ! a)"
proof -
  have mono: "t < ks ! b" if "a \<le> b" "b < length ks" "t < ks ! a" for a b
  proof -
    have "ks ! a \<le> ks ! b" using assms that by (simp add: sorted_iff_nth_mono)
    then show ?thesis using that by simp
  qed
  have "(\<forall>a. 0 \<le> a \<and> a < search 0 (length ks) (\<lambda>i. t < ks ! i) \<longrightarrow> \<not> t < ks ! a) \<and>
        (\<forall>a. search 0 (length ks) (\<lambda>i. t < ks ! i) \<le> a \<and> a < length ks \<longrightarrow> t < ks ! a)"
    by (rule search_partition) (use mono in blast)+
  then show ?thesis by (simp add: sort_Search_def not_less)
qed

lemma search_cong:
  "i \<le> j \<Longrightarrow> \<forall>a. i \<le> a \<and> a < j \<longrightarrow> f a = g a \<Longrightarrow> search i j f = search i j g"
proof (induction i j f rule: search.induct)
  case (1 i j f)
  show ?case
  proof (cases "i < j")
    case False
    then show ?thesis by (simp add: search_done)
  next
    case True
    let ?h = "(i + j) div 2"
    have h: "i \<le> ?h" "?h < j" using True by auto
    have fg: "f ?h = g ?h" using "1.prems"(2) h by blast
    show ?thesis
    proof (cases "f ?h")
      case fh: True
      have nn: "\<not> \<not> f ?h" using fh by simp
      have gh: "g ?h" using fh fg by simp
      have "\<forall>a. i \<le> a \<and> a < ?h \<longrightarrow> f a = g a" using "1.prems"(2) h by auto
      from "1.IH"(2)[OF True refl nn h(1) this]
      show ?thesis
        by (simp add: search_left[of i j f, OF True fh] search_left[of i j g, OF True gh])
    next
      case fh: False
      have gh: "\<not> g ?h" using fh fg by simp
      have le: "?h + 1 \<le> j" using h by simp
      have "\<forall>a. ?h + 1 \<le> a \<and> a < j \<longrightarrow> f a = g a" using "1.prems"(2) h by auto
      from "1.IH"(1)[OF True refl fh le this]
      show ?thesis
        by (simp add: search_right[of i j f, OF True fh] search_right[of i j g, OF True gh])
    qed
  qed
qed

lemma instants_nth: "a < length (waiters s) \<Longrightarrow> instants s ! a = expiration (heap s (waiters s ! a))"
  by (simp add: instants_def)

lemma length_instants [simp]: "length (instants s) = length (waiters s)"
  by (simp add: instants_def)

subsection \<open>Insertion and removal keep a well-formed queue\<close>

lemma setExpirer_pos_waiters_eq:
  assumes "e \<notin> set (waiters s)" "0 < d"
  shows "waiters (setExpirer e d s) =
           slices_Insert (waiters s) (insert_index (time s + d) s) e"
proof -
  let ?h = "(heap s)(e := setExpiration (time s + d) (heap s e))"
  have "\<forall>a. 0 \<le> a \<and> a < length (waiters s) \<longrightarrow>
          (expiration (?h e) < expiration (?h (waiters s ! a))) =
          (time s + d < instants s ! a)"
    using assms(1) by (auto simp: instants_nth)
  then have "search 0 (length (waiters s)) (\<lambda>i. expiration (?h e) < expiration (?h (waiters s ! i)))
           = search 0 (length (waiters s)) (\<lambda>i. time s + d < instants s ! i)"
    by (intro search_cong) simp_all
  then show ?thesis
    using assms(2) by (simp add: setExpirer_def Let_def insert_index_def sort_Search_def)
qed

lemma insert_index_le: "insert_index t s \<le> length (waiters s)"
  by (simp add: insert_index_def sort_Search_le)

lemma insert_index_split:
  assumes "sorted (instants s)"
  shows "\<forall>r\<in>set (take (insert_index (time s + d) s) (waiters s)). expiration (heap s r) \<le> time s + d"
    and "\<forall>r\<in>set (drop (insert_index (time s + d) s) (waiters s)). time s + d < expiration (heap s r)"
proof -
  let ?k = "insert_index (time s + d) s"
  note sp = sort_Search_sorted[OF assms, of "time s + d", simplified, folded insert_index_def]
  show "\<forall>r\<in>set (take ?k (waiters s)). expiration (heap s r) \<le> time s + d"
  proof
    fix r assume "r \<in> set (take ?k (waiters s))"
    then obtain a where a: "a < ?k" "a < length (waiters s)" "r = waiters s ! a"
      by (auto simp: in_set_conv_nth)
    then show "expiration (heap s r) \<le> time s + d"
      using sp instants_nth[of a s] by auto
  qed
  show "\<forall>r\<in>set (drop ?k (waiters s)). time s + d < expiration (heap s r)"
  proof
    fix r assume "r \<in> set (drop ?k (waiters s))"
    then obtain a where i: "a < length (drop ?k (waiters s))" "r = drop ?k (waiters s) ! a"
      by (metis in_set_conv_nth)
    then have a: "?k + a < length (waiters s)" "r = waiters s ! (?k + a)"
      using insert_index_le[of "time s + d" s] by simp_all
    have "?k \<le> ?k + a" by simp
    with sp a(1) have "time s + d < instants s ! (?k + a)" by blast
    then show "time s + d < expiration (heap s r)"
      using a instants_nth[of "?k + a" s] by simp
  qed
qed

lemma instants_setExpirer:
  assumes "e \<notin> set (waiters s)" "0 < d"
  shows "instants (setExpirer e d s) =
           take (insert_index (time s + d) s) (instants s) @ (time s + d) #
           drop (insert_index (time s + d) s) (instants s)"
proof -
  have same: "map (\<lambda>r. expiration (heap (setExpirer e d s) r)) xs =
              map (\<lambda>r. expiration (heap s r)) xs" if "set xs \<subseteq> set (waiters s)" for xs
    using that assms by (auto simp: setExpirer_pos_expiration)
  have t: "set (take (insert_index (time s + d) s) (waiters s)) \<subseteq> set (waiters s)"
    by (rule set_take_subset)
  have dr: "set (drop (insert_index (time s + d) s) (waiters s)) \<subseteq> set (waiters s)"
    by (rule set_drop_subset)
  show ?thesis
    unfolding instants_def setExpirer_pos_waiters_eq[OF assms] slices_Insert_def
    using same[OF t] same[OF dr] assms(2)
    by (simp add: take_map drop_map setExpirer_pos_expiration)
qed

lemma setExpirer_keeps_sorted:
  assumes srt: "sorted (instants s)" and new: "e \<notin> set (waiters s)" and d: "0 < d"
  shows "sorted (instants (setExpirer e d s))"
proof -
  let ?k = "insert_index (time s + d) s"
  note sp = insert_index_split[OF srt, of d]
  have lo: "\<forall>x\<in>set (take ?k (instants s)). x \<le> time s + d"
    using sp(1) by (auto simp: instants_def take_map)
  have hi: "\<forall>x\<in>set (drop ?k (instants s)). time s + d < x"
    using sp(2) by (auto simp: instants_def drop_map)
  have "sorted (take ?k (instants s))" "sorted (drop ?k (instants s))"
    using srt by (simp_all add: sorted_wrt_take sorted_wrt_drop)
  then show ?thesis
    unfolding instants_setExpirer[OF new d]
    using lo hi by (fastforce simp: sorted_append)
qed

lemma distinct_slices_Insert:
  assumes "distinct xs" "v \<notin> set xs"
  shows "distinct (slices_Insert xs i v)"
proof -
  have d: "distinct (take i xs) \<and> distinct (drop i xs) \<and>
           set (take i xs) \<inter> set (drop i xs) = {}"
    using assms(1) by (metis append_take_drop_id distinct_append)
  have s: "set (take i xs) \<union> set (drop i xs) = set xs"
    by (metis append_take_drop_id set_append)
  from d s assms(2) show ?thesis unfolding slices_Insert_def by auto
qed

lemma setExpirer_keeps_wf_queue:
  assumes "wf_queue s" "e \<notin> set (waiters s)"
  shows "wf_queue (setExpirer e d s)"
proof (cases "0 < d")
  case False
  then have "d \<le> 0" by simp
  then show ?thesis using assms(1)
    by (simp add: setExpirer_nonpos wf_queue_def instants_def)
next
  case True
  have "distinct (waiters (setExpirer e d s))"
    using assms
    by (simp add: setExpirer_pos_waiters_eq[OF assms(2) True] distinct_slices_Insert wf_queue_def)
  then show ?thesis
    using assms setExpirer_keeps_sorted[OF _ assms(2) True] by (simp add: wf_queue_def)
qed

lemma instants_expire [simp]: "instants (snd (expire r now s)) = instants s"
  by (simp add: instants_def)

lemma wf_queue_expire [simp]: "wf_queue (snd (expire r now s)) = wf_queue s"
  by (simp add: wf_queue_def)

lemma wf_queue_stopExpirer: "wf_queue s \<Longrightarrow> wf_queue (snd (stopExpirer e s))"
  by (simp add: wf_queue_def instants_def stopExpirer_eq sorted_map_remove1)

lemma stopExpirer_removes:
  "distinct (waiters s) \<Longrightarrow> e \<notin> set (waiters (snd (stopExpirer e s)))"
  by (simp add: stopExpirer_eq)

lemma wf_queue_tl:
  assumes "wf_queue s"
  shows "wf_queue (s\<lparr>waiters := tl (waiters s), time := t\<rparr>)"
proof (cases "waiters s")
  case Nil
  then show ?thesis using assms by (simp add: wf_queue_def instants_def)
next
  case (Cons w ws)
  then show ?thesis using assms by (simp add: wf_queue_def instants_def)
qed

lemma wf_queue_advance_body:
  assumes wf: "wf_queue s" and ne: "waiters s \<noteq> []"
  shows "wf_queue (advance_body s)"
proof -
  let ?w = "hd (waiters s)"
  let ?s2 = "s\<lparr>waiters := tl (waiters s), time := expiration (heap s ?w)\<rparr>"
  let ?x = "expire ?w (expiration (heap s ?w)) ?s2"
  have wf3: "wf_queue (snd ?x)" using wf_queue_tl[OF wf] by simp
  have "waiters s = ?w # tl (waiters s)" using ne by simp
  then have "?w \<notin> set (tl (waiters s))"
    using wf by (metis distinct.simps(2) wf_queue_def)
  then have fresh: "?w \<notin> set (waiters (snd ?x))" by simp
  show ?thesis
  proof (cases "fst ?x")
    case None
    then show ?thesis using wf3 by (simp add: advance_body_unfold Let_def)
  next
    case (Some d)
    then show ?thesis
      using setExpirer_keeps_wf_queue[OF wf3 fresh, of d]
      by (simp add: advance_body_unfold Let_def)
  qed
qed

lemma wf_queue_advance_loop: "wf_queue s \<Longrightarrow> wf_queue (advance_loop endt s)"
proof (induction endt s rule: advance_loop.induct)
  case (1 endt s)
  show ?case
  proof (cases "waiters s \<noteq> [] \<and> \<not> endt < expiration (heap s (hd (waiters s)))")
    case False
    then show ?thesis using "1.prems" by (simp add: advance_loop_stop)
  next
    case True
    then have "wf_queue (advance_body s)" using "1.prems" by (simp add: wf_queue_advance_body)
    from "1.IH"[OF True this] show ?thesis by (simp add: advance_loop_step[OF True])
  qed
qed

lemma wf_queue_time [simp]: "wf_queue (s\<lparr>time := t\<rparr>) = wf_queue s"
  by (simp add: wf_queue_def instants_def)

lemma wf_queue_Advance: "wf_queue s \<Longrightarrow> wf_queue (Advance d s)"
  by (simp add: Advance_def Let_def wf_queue_advance_loop)

text \<open>After the loop no entry of a well-formed queue is due.\<close>

lemma advance_loop_none_due:
  "wf_queue s \<Longrightarrow> \<forall>r\<in>set (waiters (advance_loop endt s)).
      endt < expiration (heap (advance_loop endt s) r)"
proof (induction endt s rule: advance_loop.induct)
  case (1 endt s)
  show ?case
  proof (cases "waiters s \<noteq> [] \<and> \<not> endt < expiration (heap s (hd (waiters s)))")
    case True
    then have "wf_queue (advance_body s)" using "1.prems" by (simp add: wf_queue_advance_body)
    from "1.IH"[OF True this] show ?thesis by (simp add: advance_loop_step[OF True])
  next
    case False
    show ?thesis
    proof (cases "waiters s")
      case Nil
      then show ?thesis using False by (simp add: advance_loop_stop)
    next
      case (Cons w ws)
      then have hd: "endt < expiration (heap s w)" using False by simp
      have "sorted (expiration (heap s w) # map (\<lambda>r. expiration (heap s r)) ws)"
        using "1.prems" Cons by (simp add: wf_queue_def instants_def)
      then have "\<forall>r\<in>set ws. expiration (heap s w) \<le> expiration (heap s r)" by simp
      then show ?thesis using hd Cons False by (auto simp: advance_loop_stop)
    qed
  qed
qed

subsection \<open>The public operations keep a well-formed clock\<close>

lemma wf_clock_NewFakeClockAt: "wf_clock (NewFakeClockAt t)"
  by (simp add: wf_clock_def wf_queue_def instants_def NewFakeClockAt_def)

lemma setExpirer_nextRef [simp]: "nextRef (setExpirer e d s) = nextRef s"
  by (simp add: setExpirer_def Let_def)

lemma wf_clock_setExpirer:
  assumes "wf_clock s" "e \<notin> set (waiters s)" "e < nextRef s"
  shows "wf_clock (setExpirer e d s)"
proof (cases "0 < d")
  case False
  then have "d \<le> 0" by simp
  then show ?thesis using assms(1)
    by (simp add: setExpirer_nonpos wf_clock_def)
next
  case True
  have "wf_queue (setExpirer e d s)"
    using assms by (simp add: wf_clock_def setExpirer_keeps_wf_queue)
  then show ?thesis
    using assms True
    by (auto simp: wf_clock_def setExpirer_pos_waiters setExpirer_pos_expiration)
qed

lemma wf_queue_fresh_heap:
  assumes "r \<notin> set (waiters s)"
  shows "wf_queue (s\<lparr>heap := (heap s)(r := v)\<rparr>) = wf_queue s"
proof -
  have "instants (s\<lparr>heap := (heap s)(r := v)\<rparr>) = instants s"
    unfolding instants_def by (rule map_cong) (use assms in auto)
  then show ?thesis by (simp add: wf_queue_def)
qed

lemma wf_clock_fresh: "wf_clock s \<Longrightarrow> nextRef s \<notin> set (waiters s)"
  by (auto simp: wf_clock_def)

lemma wf_clock_alloc:
  assumes "wf_clock s"
  shows "wf_clock (s\<lparr>heap := (heap s)(nextRef s := v), nextRef := Suc (nextRef s)\<rparr>)"
proof -
  have fresh: "nextRef s \<notin> set (waiters s)" using assms by (rule wf_clock_fresh)
  have "wf_queue (s\<lparr>heap := (heap s)(nextRef s := v)\<rparr>)"
    using assms fresh by (simp add: wf_queue_fresh_heap wf_clock_def)
  then have "wf_queue (s\<lparr>heap := (heap s)(nextRef s := v), nextRef := Suc (nextRef s)\<rparr>)"
    by (simp add: wf_queue_def instants_def)
  then show "wf_clock (s\<lparr>heap := (heap s)(nextRef s := v), nextRef := Suc (nextRef s)\<rparr>)"
    using assms fresh by (auto simp: wf_clock_def less_Suc_eq)
qed

lemma wf_clock_newTimer: "wf_clock s \<Longrightarrow> wf_clock (snd (newTimer d a s))"
  using wf_clock_alloc[of s "FakeTimer None 0 a"] wf_clock_fresh[of s]
  by (simp add: newTimer_def newFakeTimer_def Let_def wf_clock_setExpirer)

lemma wf_clock_NewTimer: "wf_clock s \<Longrightarrow> wf_clock (snd (NewTimer d s))"
  by (simp add: snd_NewTimer wf_clock_newTimer)

lemma wf_clock_AfterFunc: "wf_clock s \<Longrightarrow> wf_clock (snd (AfterFunc d g s))"
  by (simp add: snd_AfterFunc wf_clock_newTimer)

lemma wf_clock_NewTicker: "wf_clock s \<Longrightarrow> NewTicker d s = Inr (r, s') \<Longrightarrow> wf_clock s'"
  using wf_clock_alloc[of s "FakeTicker None 0 d"] wf_clock_fresh[of s]
  by (auto simp: NewTicker_def newFakeTicker_def Let_def wf_clock_setExpirer split: if_splits)

lemma wf_clock_stopExpirer: "wf_clock s \<Longrightarrow> wf_clock (snd (stopExpirer e s))"
  using wf_queue_stopExpirer[of s e]
  by (auto simp: wf_clock_def stopExpirer_eq dest: notin_set_remove1)

lemma wf_clock_fakeTimer_Reset:
  assumes "wf_clock s" "f < nextRef s"
  shows "wf_clock (snd (fakeTimer_Reset f d s))"
proof -
  let ?s1 = "snd (stopExpirer f s)"
  have "wf_clock ?s1" using assms(1) by (rule wf_clock_stopExpirer)
  moreover have "f \<notin> set (waiters ?s1)"
    using assms(1) by (simp add: stopExpirer_removes wf_clock_def wf_queue_def)
  moreover have "f < nextRef ?s1" using assms(2) by (simp add: stopExpirer_eq)
  ultimately show ?thesis
    by (simp add: fakeTimer_Reset_def split_def Let_def wf_clock_setExpirer)
qed

text \<open>A ticker that is not in the queue can be reset.\<close>

lemma wf_clock_fakeTicker_Reset_idle:
  assumes "wf_clock s" "f < nextRef s" "f \<notin> set (waiters s)" "fakeTicker_Reset f d s = Inr s'"
  shows "wf_clock s'"
proof -
  let ?s1 = "s\<lparr>heap := (heap s)(f := set_d d (heap s f))\<rparr>"
  have "wf_queue ?s1" using assms(1,3) by (simp add: wf_queue_fresh_heap wf_clock_def)
  then have "wf_clock ?s1" using assms(1,3) by (auto simp: wf_clock_def)
  then have "wf_clock (setExpirer f d ?s1)" using assms(2,3) by (simp add: wf_clock_setExpirer)
  then show ?thesis using assms(4) by (auto simp: fakeTicker_Reset_def)
qed

lemma advance_body_subset:
  assumes "waiters s \<noteq> []"
  shows "set (waiters (advance_body s)) \<subseteq> set (waiters s)"
    and "nextRef (advance_body s) = nextRef s"
proof -
  let ?w = "hd (waiters s)"
  let ?x = "expire ?w (expiration (heap s ?w))
              (s\<lparr>waiters := tl (waiters s), time := expiration (heap s ?w)\<rparr>)"
  have ws: "waiters s = ?w # tl (waiters s)" using assms by simp
  have tl: "set (tl (waiters s)) \<subseteq> set (waiters s)" by (metis ws set_subset_Cons)
  have hd: "?w \<in> set (waiters s)" using assms by simp
  show "set (waiters (advance_body s)) \<subseteq> set (waiters s)"
  proof (cases "fst ?x")
    case None
    then show ?thesis using tl by (simp add: advance_body_unfold Let_def)
  next
    case (Some d)
    show ?thesis
    proof (cases "0 < d")
      case True
      then show ?thesis using Some tl hd
        by (simp add: advance_body_unfold Let_def setExpirer_pos_waiters)
    next
      case False
      then have "d \<le> 0" by simp
      then show ?thesis using Some tl
        by (simp add: advance_body_unfold Let_def setExpirer_nonpos)
    qed
  qed
  show "nextRef (advance_body s) = nextRef s"
    by (simp add: advance_body_unfold Let_def split: option.splits)
qed

lemma advance_loop_subset:
  "set (waiters (advance_loop endt s)) \<subseteq> set (waiters s) \<and>
   nextRef (advance_loop endt s) = nextRef s"
proof (induction endt s rule: advance_loop.induct)
  case (1 endt s)
  show ?case
  proof (cases "waiters s \<noteq> [] \<and> \<not> endt < expiration (heap s (hd (waiters s)))")
    case False
    then show ?thesis by (simp add: advance_loop_stop)
  next
    case True
    then have ne: "waiters s \<noteq> []" by simp
    from "1.IH"[OF True] advance_body_subset[OF ne]
    show ?thesis by (auto simp: advance_loop_step[OF True])
  qed
qed

lemma wf_clock_Advance:
  assumes "wf_clock s"
  shows "wf_clock (Advance d s)"
proof (cases "0 \<le> d")
  case True
  let ?t = "advance_loop (time s + d) s"
  have q: "wf_queue ?t" using assms by (simp add: wf_clock_def wf_queue_advance_loop)
  have due: "\<forall>r\<in>set (waiters ?t). time s + d < expiration (heap ?t r)"
    using assms by (simp add: wf_clock_def advance_loop_none_due)
  have refs: "\<forall>r\<in>set (waiters ?t). r < nextRef ?t"
    using assms advance_loop_subset[of "time s + d" s] by (auto simp: wf_clock_def)
  show ?thesis using q due refs by (simp add: wf_clock_def Advance_def Let_def)
next
  case False
  have stop: "advance_loop (time s + d) s = s"
  proof (rule advance_loop_stop)
    show "\<not> (waiters s \<noteq> [] \<and> \<not> time s + d < expiration (heap s (hd (waiters s))))"
      using assms False by (cases "waiters s") (auto simp: wf_clock_def)
  qed
  show ?thesis using assms False by (auto simp: wf_clock_def Advance_def Let_def stop)
qed

lemma Advance_zero_idle:
  assumes "wf_clock s"
  shows "Advance 0 s = s"
proof -
  have "advance_loop (time s) s = s"
  proof (rule advance_loop_stop)
    show "\<not> (waiters s \<noteq> [] \<and> \<not> time s < expiration (heap s (hd (waiters s))))"
      using assms by (cases "waiters s") (auto simp: wf_clock_def)
  qed
  then show ?thesis by (simp add: Advance_def Let_def)
qed

subsection \<open>What one call of \<open>Advance\<close> fires\<close>

lemma expire_fired: "fired (snd (expire r now s)) = fired s @ [(r, now, time s)]"
  by (simp add: expire_def Let_def split: expirer.splits option.splits)

lemma setExpirer_fired:
  "fired (setExpirer e d s) = (if d \<le> 0 then fired s @ [(e, time s, time s)] else fired s)"
  by (simp add: setExpirer_def Let_def expire_fired)

lemma advance_body_fired:
  "\<exists>n\<in>{1, 2}. fired (advance_body s) =
      fired s @ replicate n (hd (waiters s), expiration (heap s (hd (waiters s))),
                             expiration (heap s (hd (waiters s))))"
  by (simp add: advance_body_unfold Let_def expire_fired setExpirer_fired
      numeral_2_eq_2 split: option.splits)

text \<open>What one iteration does to the objects other than the head of the queue.\<close>

lemma advance_body_other:
  assumes "waiters s \<noteq> []" "r \<noteq> hd (waiters s)"
  shows "heap (advance_body s) r = heap s r"
proof -
  have e: "heap (snd (expire w now t)) r = heap t r" if "r \<noteq> w" for w now t
    using that by (simp add: expire_def Let_def split: expirer.splits option.splits)
  have se: "heap (setExpirer w d t) r = heap t r" if "r \<noteq> w" for w d t
    using that e by (simp add: setExpirer_def Let_def)
  show ?thesis
    using assms(2) by (simp add: advance_body_unfold Let_def e se split: option.splits)
qed

lemma advance_body_keeps_tail:
  assumes "waiters s \<noteq> []"
  shows "set (tl (waiters s)) \<subseteq> set (waiters (advance_body s))"
proof -
  let ?w = "hd (waiters s)"
  let ?x = "expire ?w (expiration (heap s ?w))
              (s\<lparr>waiters := tl (waiters s), time := expiration (heap s ?w)\<rparr>)"
  show ?thesis
  proof (cases "fst ?x")
    case None
    then show ?thesis by (simp add: advance_body_unfold Let_def)
  next
    case (Some d)
    show ?thesis
    proof (cases "0 < d")
      case True
      then show ?thesis using Some
        by (auto simp: advance_body_unfold Let_def setExpirer_pos_waiters)
    next
      case False
      then have "d \<le> 0" by simp
      then show ?thesis using Some
        by (simp add: advance_body_unfold Let_def setExpirer_nonpos)
    qed
  qed
qed

text \<open>The history only grows.\<close>

lemma advance_loop_fired_grows:
  "\<exists>xs. fired (advance_loop endt s) = fired s @ xs"
proof (induction endt s rule: advance_loop.induct)
  case (1 endt s)
  show ?case
  proof (cases "waiters s \<noteq> [] \<and> \<not> endt < expiration (heap s (hd (waiters s)))")
    case False
    then show ?thesis by (simp add: advance_loop_stop)
  next
    case True
    from "1.IH"[OF True] obtain xs where
      xs: "fired (advance_loop endt (advance_body s)) = fired (advance_body s) @ xs" by blast
    from advance_body_fired[of s] obtain ys where "fired (advance_body s) = fired s @ ys"
      by blast
    with xs show ?thesis by (simp add: advance_loop_step[OF True])
  qed
qed

lemma new_fired_append: "fired s' = fired s @ xs \<Longrightarrow> new_fired s s' = xs"
  by (simp add: new_fired_def)

lemma new_fired_same [simp]: "new_fired s s = []"
  by (simp add: new_fired_def)

lemma new_fired_advance_body:
  "\<exists>n\<in>{1, 2}. new_fired s (advance_body s) =
      replicate n (hd (waiters s), expiration (heap s (hd (waiters s))),
                   expiration (heap s (hd (waiters s))))"
  using advance_body_fired[of s] by (auto simp: new_fired_def)

lemma new_fired_step:
  assumes "waiters s \<noteq> [] \<and> \<not> endt < expiration (heap s (hd (waiters s)))"
  shows "new_fired s (advance_loop endt s) =
           new_fired s (advance_body s) @ new_fired (advance_body s) (advance_loop endt (advance_body s))"
proof -
  obtain ys where ys: "fired (advance_body s) = fired s @ ys"
    using advance_body_fired[of s] by blast
  obtain xs where xs: "fired (advance_loop endt (advance_body s)) = fired (advance_body s) @ xs"
    using advance_loop_fired_grows by blast
  show ?thesis
    using ys xs by (simp add: advance_loop_step[OF assms] new_fired_def)
qed

text \<open>
  Whatever the queue looks like: what fires is the head of the queue at that moment,
  at its own instant, which is not after the end of the advance, and the clock's time
  is that instant when it fires.
\<close>

lemma advance_loop_fires_waiters:
  "\<forall>e\<in>set (new_fired s (advance_loop endt s)).
      fst e \<in> set (waiters s) \<and> snd (snd e) = fst (snd e) \<and> fst (snd e) \<le> endt"
proof (induction endt s rule: advance_loop.induct)
  case (1 endt s)
  show ?case
  proof (cases "waiters s \<noteq> [] \<and> \<not> endt < expiration (heap s (hd (waiters s)))")
    case False
    then show ?thesis by (simp add: advance_loop_stop)
  next
    case True
    then have ne: "waiters s \<noteq> []" by simp
    have hd: "hd (waiters s) \<in> set (waiters s)" using ne by simp
    from new_fired_advance_body[of s] True hd
    have a: "\<forall>e\<in>set (new_fired s (advance_body s)).
      fst e \<in> set (waiters s) \<and> snd (snd e) = fst (snd e) \<and> fst (snd e) \<le> endt"
      by auto
    from "1.IH"[OF True] advance_body_subset(1)[OF ne]
    have b: "\<forall>e\<in>set (new_fired (advance_body s) (advance_loop endt (advance_body s))).
      fst e \<in> set (waiters s) \<and> snd (snd e) = fst (snd e) \<and> fst (snd e) \<le> endt"
      by blast
    show ?thesis using a b by (auto simp: new_fired_step[OF True])
  qed
qed

text \<open>An expirer that is not due does not fire.\<close>

lemma advance_loop_not_due_silent:
  "endt < expiration (heap s r) \<Longrightarrow>
     r \<notin> fst ` set (new_fired s (advance_loop endt s)) \<and>
     heap (advance_loop endt s) r = heap s r"
proof (induction endt s rule: advance_loop.induct)
  case (1 endt s)
  show ?case
  proof (cases "waiters s \<noteq> [] \<and> \<not> endt < expiration (heap s (hd (waiters s)))")
    case False
    then show ?thesis by (simp add: advance_loop_stop)
  next
    case True
    then have ne: "waiters s \<noteq> []" by simp
    have neq: "r \<noteq> hd (waiters s)" using True "1.prems" by auto
    have same: "heap (advance_body s) r = heap s r" using ne neq by (rule advance_body_other)
    from new_fired_advance_body[of s] neq
    have a: "r \<notin> fst ` set (new_fired s (advance_body s))" by auto
    from "1.IH"[OF True] "1.prems" same
    have b: "r \<notin> fst ` set (new_fired (advance_body s) (advance_loop endt (advance_body s)))"
      "heap (advance_loop endt (advance_body s)) r = heap s r"
      by simp_all
    have "r \<notin> fst ` set (new_fired s (advance_loop endt s))"
      using a b(1) by (auto simp: new_fired_step[OF True])
    moreover have "heap (advance_loop endt s) r = heap s r"
      using b(2) by (simp add: advance_loop_step[OF True])
    ultimately show ?thesis by simp
  qed
qed

text \<open>In a well-formed queue the head has the least instant, also after one iteration.\<close>

lemma wf_queue_hd_least:
  assumes "wf_queue s" "r \<in> set (waiters s)"
  shows "expiration (heap s (hd (waiters s))) \<le> expiration (heap s r)"
proof -
  have ne: "waiters s \<noteq> []" using assms(2) by auto
  then have ws: "waiters s = hd (waiters s) # tl (waiters s)" by simp
  have "sorted (map (\<lambda>r. expiration (heap s r)) (hd (waiters s) # tl (waiters s)))"
    using assms(1) ws by (simp add: wf_queue_def instants_def)
  then have "\<forall>x\<in>set (tl (waiters s)).
      expiration (heap s (hd (waiters s))) \<le> expiration (heap s x)" by simp
  moreover have "r = hd (waiters s) \<or> r \<in> set (tl (waiters s))"
    using assms(2) ws by (metis set_ConsD)
  ultimately show ?thesis by auto
qed

lemma advance_body_lower:
  assumes wf: "wf_queue s" and ne: "waiters s \<noteq> []"
    and r: "r \<in> set (waiters (advance_body s))"
  shows "expiration (heap s (hd (waiters s))) \<le> expiration (heap (advance_body s) r)"
proof (cases "r = hd (waiters s)")
  case False
  have "r \<in> set (waiters s)" using r advance_body_subset(1)[OF ne] by blast
  then show ?thesis
    using wf_queue_hd_least[OF wf] advance_body_other[OF ne False] by simp
next
  case True
  have ws: "waiters s = hd (waiters s) # tl (waiters s)" using ne by simp
  have notin: "hd (waiters s) \<notin> set (tl (waiters s))"
    using wf ws by (metis distinct.simps(2) wf_queue_def)
  show ?thesis
  proof (cases "heap s (hd (waiters s))")
    case (FakeTimer c e f)
    from advance_body_timer(1)[OF this] r True notin show ?thesis by simp
  next
    case (FakeTicker c e p)
    show ?thesis
    proof (cases "0 < p")
      case False
      then have "p \<le> 0" by simp
      from advance_body_ticker_nonpos(1)[OF FakeTicker this] r True notin show ?thesis by simp
    next
      case pos: True
      from advance_body_ticker_pos(3)[OF FakeTicker pos, of r] True FakeTicker pos
      show ?thesis by simp
    qed
  qed
qed

text \<open>In a well-formed queue the firings of one advance are in the order of the instants.\<close>

lemma advance_loop_fires_in_order:
  "wf_queue s \<Longrightarrow> \<forall>r\<in>set (waiters s). lb \<le> expiration (heap s r) \<Longrightarrow>
     sorted (map (\<lambda>e. fst (snd e)) (new_fired s (advance_loop endt s))) \<and>
     (\<forall>e\<in>set (new_fired s (advance_loop endt s)). lb \<le> fst (snd e))"
proof (induction endt s arbitrary: lb rule: advance_loop.induct)
  case (1 endt s)
  show ?case
  proof (cases "waiters s \<noteq> [] \<and> \<not> endt < expiration (heap s (hd (waiters s)))")
    case False
    then show ?thesis by (simp add: advance_loop_stop)
  next
    case True
    then have ne: "waiters s \<noteq> []" by simp
    let ?h = "expiration (heap s (hd (waiters s)))"
    have lbh: "lb \<le> ?h" using "1.prems"(2) ne by simp
    have wf': "wf_queue (advance_body s)" using "1.prems"(1) ne by (rule wf_queue_advance_body)
    have low: "\<forall>r\<in>set (waiters (advance_body s)). ?h \<le> expiration (heap (advance_body s) r)"
      using advance_body_lower[OF "1.prems"(1) ne] by blast
    note IH = "1.IH"[OF True wf' low]
    obtain n where n: "new_fired s (advance_body s) = replicate n (hd (waiters s), ?h, ?h)"
      using new_fired_advance_body[of s] by blast
    have "sorted (map (\<lambda>e. fst (snd e)) (new_fired s (advance_body s)))"
      by (simp add: n sorted_replicate)
    moreover have "\<forall>e\<in>set (new_fired s (advance_body s)). fst (snd e) = ?h"
      by (auto simp: n)
    ultimately show ?thesis
      using IH lbh by (fastforce simp: new_fired_step[OF True] sorted_append)
  qed
qed

lemma before_slices_Insert:
  "before a b xs \<Longrightarrow> v \<noteq> a \<Longrightarrow> before a b (slices_Insert xs i v)"
proof (induction xs arbitrary: i)
  case Nil
  then show ?case by simp
next
  case (Cons x xs)
  show ?case
  proof (cases i)
    case 0
    then show ?thesis using Cons.prems by (simp add: slices_Insert_def)
  next
    case (Suc j)
    have eq: "slices_Insert (x # xs) i v = x # slices_Insert xs j v"
      using Suc by (simp add: slices_Insert_def)
    show ?thesis
    proof (cases "x = a")
      case True
      then show ?thesis using Cons.prems eq by simp
    next
      case False
      then show ?thesis using Cons.prems Cons.IH[of j] eq by simp
    qed
  qed
qed

lemma before_in_set: "before a b xs \<Longrightarrow> a \<in> set xs \<and> b \<in> set xs"
  by (induction xs) (auto split: if_splits)

lemma advance_body_before:
  assumes bf: "before a b (waiters s)" and neq: "hd (waiters s) \<noteq> a"
    and dist: "distinct (waiters s)"
  shows "before a b (waiters (advance_body s))"
proof -
  let ?w = "hd (waiters s)"
  have ne: "waiters s \<noteq> []" using bf by auto
  then have ws: "waiters s = ?w # tl (waiters s)" by simp
  have tl: "before a b (tl (waiters s))" using bf neq ws by (metis before.simps(2))
  have notin: "?w \<notin> set (tl (waiters s))" using dist ws by (metis distinct.simps(2))
  let ?x = "expire ?w (expiration (heap s ?w))
              (s\<lparr>waiters := tl (waiters s), time := expiration (heap s ?w)\<rparr>)"
  show ?thesis
  proof (cases "fst ?x")
    case None
    then show ?thesis using tl by (simp add: advance_body_unfold Let_def)
  next
    case (Some d)
    show ?thesis
    proof (cases "0 < d")
      case False
      then have "d \<le> 0" by simp
      then show ?thesis using Some tl
        by (simp add: advance_body_unfold Let_def setExpirer_nonpos)
    next
      case True
      have fresh: "?w \<notin> set (waiters (snd ?x))" using notin by simp
      have "waiters (setExpirer ?w d (snd ?x)) =
              slices_Insert (tl (waiters s)) (insert_index (time (snd ?x) + d) (snd ?x)) ?w"
        using setExpirer_pos_waiters_eq[OF fresh True] by simp
      then show ?thesis using Some tl neq
        by (simp add: advance_body_unfold Let_def before_slices_Insert)
    qed
  qed
qed

text \<open>
  In a well-formed queue, of two entries the one nearer to the head fires first: when
  it is due, its firing comes before any firing of the other.
\<close>

lemma advance_loop_fires_head_first:
  "wf_queue s \<Longrightarrow> before a b (waiters s) \<Longrightarrow> expiration (heap s a) \<le> endt \<Longrightarrow>
     \<exists>ys zs. new_fired s (advance_loop endt s) =
                ys @ (a, expiration (heap s a), expiration (heap s a)) # zs \<and>
             b \<notin> fst ` set ys"
proof (induction endt s rule: advance_loop.induct)
  case (1 endt s)
  let ?w = "hd (waiters s)"
  have mem: "a \<in> set (waiters s)" "b \<in> set (waiters s)"
    using before_in_set[OF "1.prems"(2)] by simp_all
  then have ne: "waiters s \<noteq> []" by auto
  have ws: "waiters s = ?w # tl (waiters s)" using ne by simp
  have dist: "distinct (waiters s)" using "1.prems"(1) by (simp add: wf_queue_def)
  have "expiration (heap s ?w) \<le> expiration (heap s a)"
    using wf_queue_hd_least[OF "1.prems"(1) mem(1)] .
  then have True: "waiters s \<noteq> [] \<and> \<not> endt < expiration (heap s ?w)"
    using ne "1.prems"(3) by simp
  obtain n where n: "n \<in> {1, 2}"
    "new_fired s (advance_body s) =
       replicate n (?w, expiration (heap s ?w), expiration (heap s ?w))"
    using new_fired_advance_body[of s] by blast
  show ?case
  proof (cases "?w = a")
    case True
    have "replicate n (a, expiration (heap s a), expiration (heap s a)) =
          (a, expiration (heap s a), expiration (heap s a)) #
          replicate (n - 1) (a, expiration (heap s a), expiration (heap s a))"
      using n(1) by (cases n) auto
    then have "new_fired s (advance_loop endt s) =
          [] @ (a, expiration (heap s a), expiration (heap s a)) #
          (replicate (n - 1) (a, expiration (heap s a), expiration (heap s a)) @
           new_fired (advance_body s) (advance_loop endt (advance_body s)))"
      using n(2) True by (simp add: new_fired_step[OF \<open>waiters s \<noteq> [] \<and> \<not> endt < expiration (heap s ?w)\<close>])
    then show ?thesis by (metis empty_iff image_empty list.set(1))
  next
    case False
    have wb: "?w \<noteq> b"
    proof
      assume "?w = b"
      then have "b \<notin> set (tl (waiters s))" using dist ws by (metis distinct.simps(2))
      moreover have "before a b (tl (waiters s))"
        using "1.prems"(2) False ws by (metis before.simps(2))
      ultimately show False using before_in_set by fastforce
    qed
    have bf': "before a b (waiters (advance_body s))"
      using "1.prems"(2) False dist by (rule advance_body_before)
    have wf': "wf_queue (advance_body s)" using "1.prems"(1) ne by (rule wf_queue_advance_body)
    have same: "heap (advance_body s) a = heap s a"
      using ne False by (intro advance_body_other) auto
    from "1.IH"[OF True wf' bf'] "1.prems"(3) same
    obtain ys zs where IH:
      "new_fired (advance_body s) (advance_loop endt (advance_body s)) =
         ys @ (a, expiration (heap s a), expiration (heap s a)) # zs"
      "b \<notin> fst ` set ys"
      by auto
    have "new_fired s (advance_loop endt s) =
            (new_fired s (advance_body s) @ ys) @
            (a, expiration (heap s a), expiration (heap s a)) # zs"
      using IH(1) by (simp add: new_fired_step[OF True])
    moreover have "b \<notin> fst ` set (new_fired s (advance_body s) @ ys)"
      using IH(2) wb n(2) by auto
    ultimately show ?thesis by blast
  qed
qed

subsection \<open>Tickers on a well-formed clock\<close>

lemma advance_body_ticker_head:
  assumes h: "heap s (hd (waiters s)) = FakeTicker c e p" and p: "0 < p"
  shows "new_fired s (advance_body s) = [(hd (waiters s), e, e)]"
    and "heap (advance_body s) (hd (waiters s)) = FakeTicker (trySend e c) (e + p) p"
    and "hd (waiters s) \<in> set (waiters (advance_body s))"
proof -
  show "new_fired s (advance_body s) = [(hd (waiters s), e, e)]"
    using h p
    by (simp add: new_fired_def advance_body_unfold Let_def expire_def setExpirer_fired)
  show "heap (advance_body s) (hd (waiters s)) = FakeTicker (trySend e c) (e + p) p"
    using h p
    by (simp add: advance_body_unfold Let_def expire_def setExpirer_def setExpiration_def)
  show "hd (waiters s) \<in> set (waiters (advance_body s))"
    using advance_body_ticker_pos(1)[OF h p] by simp
qed

lemma advance_loop_not_due_stays:
  "endt < expiration (heap s r) \<Longrightarrow> r \<in> set (waiters s) \<Longrightarrow>
     r \<in> set (waiters (advance_loop endt s))"
proof (induction endt s rule: advance_loop.induct)
  case (1 endt s)
  show ?case
  proof (cases "waiters s \<noteq> [] \<and> \<not> endt < expiration (heap s (hd (waiters s)))")
    case False
    then show ?thesis using "1.prems" by (simp add: advance_loop_stop)
  next
    case True
    then have ne: "waiters s \<noteq> []" by simp
    have neq: "r \<noteq> hd (waiters s)" using True "1.prems"(1) by auto
    have "waiters s = hd (waiters s) # tl (waiters s)" using ne by simp
    then have "r \<in> set (tl (waiters s))" using "1.prems"(2) neq by (metis set_ConsD)
    then have mem: "r \<in> set (waiters (advance_body s))"
      using advance_body_keeps_tail[OF ne] by blast
    have same: "heap (advance_body s) r = heap s r" using ne neq by (rule advance_body_other)
    from "1.IH"[OF True _ mem] "1.prems"(1) same
    show ?thesis by (simp add: advance_loop_step[OF True])
  qed
qed

text \<open>
  A ticker of positive period whose instant lies within one period before the end of
  the advance fires exactly once and is rescheduled one period after that instant.
\<close>

lemma advance_loop_ticker_once:
  "wf_queue s \<Longrightarrow> r \<in> set (waiters s) \<Longrightarrow> heap s r = FakeTicker c e p \<Longrightarrow> 0 < p \<Longrightarrow>
   e \<le> endt \<Longrightarrow> endt < e + p \<Longrightarrow>
     filter (\<lambda>x. fst x = r) (new_fired s (advance_loop endt s)) = [(r, e, e)] \<and>
     heap (advance_loop endt s) r = FakeTicker (trySend e c) (e + p) p \<and>
     r \<in> set (waiters (advance_loop endt s))"
proof (induction endt s rule: advance_loop.induct)
  case (1 endt s)
  let ?w = "hd (waiters s)"
  have ne: "waiters s \<noteq> []" using "1.prems"(2) by auto
  have "expiration (heap s ?w) \<le> expiration (heap s r)"
    using wf_queue_hd_least[OF "1.prems"(1,2)] .
  then have True: "waiters s \<noteq> [] \<and> \<not> endt < expiration (heap s ?w)"
    using ne "1.prems"(3,5) by simp
  note nf = new_fired_step[OF True]
  note st = advance_loop_step[OF True]
  show ?case
  proof (cases "r = ?w")
    case True
    have h: "heap s ?w = FakeTicker c e p" using True "1.prems"(3) by simp
    note hd = advance_body_ticker_head[OF h "1.prems"(4)]
    have late: "endt < expiration (heap (advance_body s) r)"
      using hd(2) True "1.prems"(6) by simp
    note silent = advance_loop_not_due_silent[OF late]
    have "filter (\<lambda>x. fst x = r) (new_fired (advance_body s) (advance_loop endt (advance_body s))) = []"
      using silent by (auto simp: filter_empty_conv)
    then have "filter (\<lambda>x. fst x = r) (new_fired s (advance_loop endt s)) = [(r, e, e)]"
      using hd(1) True by (simp add: nf)
    moreover have "heap (advance_loop endt s) r = FakeTicker (trySend e c) (e + p) p"
      using silent hd(2) True by (simp add: st)
    moreover have "r \<in> set (waiters (advance_loop endt s))"
      using advance_loop_not_due_stays[OF late] hd(3) True by (simp add: st)
    ultimately show ?thesis by simp
  next
    case False
    have "waiters s = ?w # tl (waiters s)" using ne by simp
    then have "r \<in> set (tl (waiters s))" using "1.prems"(2) False by (metis set_ConsD)
    then have mem: "r \<in> set (waiters (advance_body s))"
      using advance_body_keeps_tail[OF ne] by blast
    have same: "heap (advance_body s) r = FakeTicker c e p"
      using advance_body_other[OF ne False] "1.prems"(3) by simp
    have wf': "wf_queue (advance_body s)" using "1.prems"(1) ne by (rule wf_queue_advance_body)
    note IH = "1.IH"[OF \<open>waiters s \<noteq> [] \<and> \<not> endt < expiration (heap s ?w)\<close> wf' mem same
        "1.prems"(4,5,6)]
    have "filter (\<lambda>x. fst x = r) (new_fired s (advance_body s)) = []"
      using new_fired_advance_body[of s] False by (auto simp: filter_empty_conv)
    then have "filter (\<lambda>x. fst x = r) (new_fired s (advance_loop endt s)) = [(r, e, e)]"
      using IH by (simp add: nf)
    then show ?thesis using IH by (simp add: st)
  qed
qed

lemma new_fired_Advance:
  "new_fired s (Advance d s) = new_fired s (advance_loop (time s + d) s)"
  by (simp add: new_fired_def Advance_def Let_def)

lemma heap_Advance: "heap (Advance d s) = heap (advance_loop (time s + d) s)"
  by (simp add: Advance_def Let_def)

lemma waiters_Advance: "waiters (Advance d s) = waiters (advance_loop (time s + d) s)"
  by (simp add: Advance_def Let_def)

lemma wf_clock_drain: "wf_clock (drain r s) = wf_clock s"
proof -
  have "expiration (heap (drain r s) x) = expiration (heap s x)" for x
    by (simp add: drain_def set_chanbuf_def split: expirer.splits)
  then show ?thesis
    by (simp add: wf_clock_def wf_queue_def instants_def drain_def)
qed

lemma new_fired_trans:
  assumes "\<exists>xs. fired s' = fired s @ xs" "\<exists>ys. fired s'' = fired s' @ ys"
  shows "new_fired s s'' = new_fired s s' @ new_fired s' s''"
  using assms by (auto simp: new_fired_def)

lemma Advance_fired_grows: "\<exists>xs. fired (Advance d s) = fired s @ xs"
  using advance_loop_fired_grows[of "time s + d" s] by (simp add: Advance_def Let_def)

text \<open>
  One round: the ticker fires exactly once, at the instant it was scheduled for, that
  instant is delivered on its channel if the channel was empty, and the ticker is
  scheduled one period after that instant.
\<close>

lemma tick_round_once:
  assumes "ticker_phase s r p"
  shows "filter (\<lambda>x. fst x = r) (new_fired s (tick_round p r s)) =
           [(r, time s + p, time s + p)]"
    and "chanbuf (heap s r) = None \<Longrightarrow> chanbuf (heap (Advance p s) r) = Some (time s + p)"
    and "expiration (heap (Advance p s) r) = expiration (heap s r) + p"
    and "ticker_phase (tick_round p r s) r p"
proof -
  from assms obtain c where
    wf: "wf_clock s" and mem: "r \<in> set (waiters s)" and p: "0 < p"
    and h: "heap s r = FakeTicker c (time s + p) p"
    by (auto simp: ticker_phase_def split: expirer.splits)
  have q: "wf_queue s" using wf by (simp add: wf_clock_def)
  from advance_loop_ticker_once[OF q mem h p, of "time s + p"] p
  have once: "filter (\<lambda>x. fst x = r) (new_fired s (advance_loop (time s + p) s)) =
                [(r, time s + p, time s + p)]"
    and h': "heap (advance_loop (time s + p) s) r =
               FakeTicker (trySend (time s + p) c) (time s + p + p) p"
    and mem': "r \<in> set (waiters (advance_loop (time s + p) s))"
    by simp_all
  show "filter (\<lambda>x. fst x = r) (new_fired s (tick_round p r s)) =
           [(r, time s + p, time s + p)]"
    using once by (simp add: tick_round_def new_fired_def drain_def Advance_def Let_def)
  show "chanbuf (heap s r) = None \<Longrightarrow> chanbuf (heap (Advance p s) r) = Some (time s + p)"
    using h h' by (simp add: heap_Advance trySend_def)
  show "expiration (heap (Advance p s) r) = expiration (heap s r) + p"
    using h h' by (simp add: heap_Advance)
  have "wf_clock (tick_round p r s)"
    using wf by (simp add: tick_round_def wf_clock_drain wf_clock_Advance)
  moreover have "r \<in> set (waiters (tick_round p r s))"
    using mem' by (simp add: tick_round_def drain_def waiters_Advance)
  moreover have "heap (tick_round p r s) r = FakeTicker None (time s + p + p) p"
    using h' by (simp add: tick_round_def drain_def heap_Advance set_chanbuf_def)
  moreover have "time (tick_round p r s) = time s + p"
    by (simp add: tick_round_def drain_def Advance_def Let_def)
  ultimately show "ticker_phase (tick_round p r s) r p"
    using p by (simp add: ticker_phase_def)
qed

lemma tick_round_fired_grows: "\<exists>xs. fired (tick_round p r s) = fired s @ xs"
  using Advance_fired_grows[of p s] by (simp add: tick_round_def drain_def)

lemma tick_rounds_fired_grows: "\<exists>xs. fired ((tick_round p r ^^ k) s) = fired s @ xs"
proof (induction k)
  case 0
  show ?case by simp
next
  case (Suc k)
  then obtain xs where "fired ((tick_round p r ^^ k) s) = fired s @ xs" by blast
  moreover obtain ys where
    "fired (tick_round p r ((tick_round p r ^^ k) s)) = fired ((tick_round p r ^^ k) s) @ ys"
    using tick_round_fired_grows by blast
  ultimately show ?case by simp
qed

text \<open>After \<open>k\<close> rounds the ticker has fired \<open>k\<close> times.\<close>

lemma tick_rounds_count:
  assumes "ticker_phase s r p"
  shows "ticker_phase ((tick_round p r ^^ k) s) r p \<and>
         length (filter (\<lambda>x. fst x = r) (new_fired s ((tick_round p r ^^ k) s))) = k"
proof (induction k)
  case 0
  show ?case using assms by simp
next
  case (Suc k)
  let ?t = "(tick_round p r ^^ k) s"
  have ph: "ticker_phase ?t r p" using Suc by simp
  note one = tick_round_once[OF ph]
  have "new_fired s (tick_round p r ?t) = new_fired s ?t @ new_fired ?t (tick_round p r ?t)"
    by (rule new_fired_trans) (rule tick_rounds_fired_grows, rule tick_round_fired_grows)
  then show ?case using Suc one(1,4) by simp
qed

text \<open>A new ticker on a well-formed clock is in phase.\<close>

lemma NewTicker_phase:
  assumes "wf_clock s" "NewTicker p s = Inr (r, s')"
  shows "ticker_phase s' r p"
proof -
  have p: "0 < p" using assms(2) by (auto simp: NewTicker_def split: if_splits)
  let ?s1 = "s\<lparr>heap := (heap s)(nextRef s := FakeTicker None 0 p), nextRef := Suc (nextRef s)\<rparr>"
  have r: "r = nextRef s" and s': "s' = setExpirer (nextRef s) p ?s1"
    using assms(2) p by (auto simp: NewTicker_def newFakeTicker_def Let_def)
  have "wf_clock s'" using assms by (rule wf_clock_NewTicker)
  moreover have "r \<in> set (waiters s')" using p by (simp add: r s' setExpirer_pos_waiters)
  moreover have "heap s' r = FakeTicker None (time s + p) p"
    using p by (simp add: r s' setExpirer_def Let_def setExpiration_def)
  moreover have "time s' = time s" by (simp add: s')
  ultimately show ?thesis using p by (simp add: ticker_phase_def)
qed

text \<open>Every entry of a well-formed queue that is due fires, at its own instant.\<close>

lemma advance_loop_fires_all_due:
  "wf_queue s \<Longrightarrow> r \<in> set (waiters s) \<Longrightarrow> expiration (heap s r) \<le> endt \<Longrightarrow>
     (r, expiration (heap s r), expiration (heap s r))
       \<in> set (new_fired s (advance_loop endt s))"
proof (induction endt s rule: advance_loop.induct)
  case (1 endt s)
  let ?w = "hd (waiters s)"
  have ne: "waiters s \<noteq> []" using "1.prems"(2) by auto
  then have ws: "waiters s = ?w # tl (waiters s)" by simp
  have "expiration (heap s ?w) \<le> expiration (heap s r)"
    using wf_queue_hd_least[OF "1.prems"(1,2)] .
  then have True: "waiters s \<noteq> [] \<and> \<not> endt < expiration (heap s ?w)"
    using ne "1.prems"(3) by simp
  note nf = new_fired_step[OF True]
  show ?case
  proof (cases "r = ?w")
    case True
    from new_fired_advance_body[of s]
    have "(r, expiration (heap s r), expiration (heap s r)) \<in> set (new_fired s (advance_body s))"
      using True by auto
    then show ?thesis by (simp add: nf)
  next
    case False
    then have "r \<in> set (tl (waiters s))" using "1.prems"(2) ws by (metis set_ConsD)
    then have mem: "r \<in> set (waiters (advance_body s))"
      using advance_body_keeps_tail[OF ne] by blast
    have same: "heap (advance_body s) r = heap s r"
      using ne False by (rule advance_body_other)
    have wf': "wf_queue (advance_body s)" using "1.prems"(1) ne by (rule wf_queue_advance_body)
    from "1.IH"[OF \<open>waiters s \<noteq> [] \<and> \<not> endt < expiration (heap s ?w)\<close> wf' mem]
      "1.prems"(3)
    show ?thesis by (simp add: same nf)
  qed
qed

subsection \<open>One call of \<open>Advance\<close> on a well-formed clock\<close>

lemma Advance_fires_at_instant:
  "\<forall>e\<in>set (new_fired s (Advance d s)).
      fst e \<in> set (waiters s) \<and> snd (snd e) = fst (snd e) \<and> fst (snd e) \<le> time s + d"
  using advance_loop_fires_waiters[of s "time s + d"] by (simp add: new_fired_Advance)

lemma Advance_fires_due:
  assumes "wf_clock s" "r \<in> set (waiters s)" "expiration (heap s r) \<le> time s + d"
  shows "(r, expiration (heap s r), expiration (heap s r)) \<in> set (new_fired s (Advance d s))"
  using assms advance_loop_fires_all_due[of s r "time s + d"]
  by (simp add: wf_clock_def new_fired_Advance)

lemma Advance_fires_in_order:
  assumes "wf_clock s"
  shows "sorted (map (\<lambda>e. fst (snd e)) (new_fired s (Advance d s)))"
    and "\<forall>e\<in>set (new_fired s (Advance d s)). time s < fst (snd e)"
proof -
  have q: "wf_queue s" using assms by (simp add: wf_clock_def)
  have lb: "\<forall>r\<in>set (waiters s). time s + 1 \<le> expiration (heap s r)"
    using assms by (auto simp: wf_clock_def)
  from advance_loop_fires_in_order[OF q lb, of "time s + d"]
  show "sorted (map (\<lambda>e. fst (snd e)) (new_fired s (Advance d s)))"
    and "\<forall>e\<in>set (new_fired s (Advance d s)). time s < fst (snd e)"
    by (auto simp: new_fired_Advance)
qed

lemma Advance_fires_head_first:
  assumes "wf_clock s" "before a b (waiters s)" "expiration (heap s a) \<le> time s + d"
  shows "\<exists>ys zs. new_fired s (Advance d s) =
                    ys @ (a, expiration (heap s a), expiration (heap s a)) # zs \<and>
                  b \<notin> fst ` set ys"
  using assms advance_loop_fires_head_first[of s a b "time s + d"]
  by (simp add: wf_clock_def new_fired_Advance)

text \<open>An insertion puts the new entry behind the entries that are in the queue.\<close>

lemma setExpirer_behind:
  assumes "wf_clock s" "e \<notin> set (waiters s)" "0 < d" "r \<in> set (waiters s)"
    "expiration (heap s r) \<le> time s + d"
  shows "before r e (waiters (setExpirer e d s))"
proof -
  let ?k = "insert_index (time s + d) s"
  have q: "sorted (instants s)" using assms(1) by (simp add: wf_clock_def wf_queue_def)
  note sp = insert_index_split[OF q, of d]
  have "r \<notin> set (drop ?k (waiters s))" using sp(2) assms(5) by fastforce
  moreover have "set (take ?k (waiters s)) \<union> set (drop ?k (waiters s)) = set (waiters s)"
    by (metis append_take_drop_id set_append)
  ultimately have rt: "r \<in> set (take ?k (waiters s))" using assms(4) by blast
  have bf: "before r e (xs @ e # ys)" if "r \<in> set xs" "e \<notin> set xs" for xs ys
    using that by (induction xs) auto
  have "e \<notin> set (take ?k (waiters s))" using assms(2) by (meson in_set_takeD)
  with rt show ?thesis
    by (simp add: setExpirer_pos_waiters_eq[OF assms(2,3)] slices_Insert_def bf)
qed

subsection \<open>Stopping on a well-formed clock\<close>

lemma stop_absent: "e \<notin> set (waiters s) \<Longrightarrow> stop e s = (False, s)"
  by (simp add: stop_def stopExpirer_eq remove1_idem)

lemma stop_present:
  assumes "wf_clock s" "e \<in> set (waiters s)"
  shows "fst (stop e s) = True" and "e \<notin> set (waiters (snd (stop e s)))"
    and "wf_clock (snd (stop e s))" and "stop e (snd (stop e s)) = (False, snd (stop e s))"
proof -
  have d: "distinct (waiters s)" using assms(1) by (simp add: wf_clock_def wf_queue_def)
  show "fst (stop e s) = True" using assms(2) by (simp add: stop_def stopExpirer_eq)
  show gone: "e \<notin> set (waiters (snd (stop e s)))"
    using d by (simp add: stop_def stopExpirer_removes)
  show "wf_clock (snd (stop e s))" using assms(1) by (simp add: stop_def wf_clock_stopExpirer)
  show "stop e (snd (stop e s)) = (False, snd (stop e s))" using gone by (rule stop_absent)
qed

lemma absent_never_fires:
  "e \<notin> set (waiters s) \<Longrightarrow> e \<notin> fst ` set (new_fired s (Advance d s))"
  using Advance_fires_at_instant[of s d] by auto

subsection \<open>Reachable states without a reset of a queued ticker\<close>

lemma wf_clock_newBlocker: "wf_clock s \<Longrightarrow> wf_clock (snd (newBlocker n s))"
  by (simp add: newBlocker_def Let_def wf_clock_def wf_queue_def instants_def)

lemma reachable_idle_reset_wf: "reachable_idle_reset s \<Longrightarrow> wf_clock s"
proof (induction rule: reachable_idle_reset.induct)
  case (i_init t)
  show ?case by (rule wf_clock_NewFakeClockAt)
next
  case (i_NewTimer s d)
  then show ?case by (simp add: wf_clock_NewTimer)
next
  case (i_AfterFunc s d g)
  then show ?case by (simp add: wf_clock_AfterFunc)
next
  case (i_NewTicker s d r s')
  then show ?case by (blast intro: wf_clock_NewTicker)
next
  case (i_Timer_Reset s f d)
  then show ?case by (simp add: wf_clock_fakeTimer_Reset)
next
  case (i_Timer_Stop s f)
  then show ?case by (simp add: fakeTimer_Stop_def stop_def wf_clock_stopExpirer)
next
  case (i_Ticker_Reset s f d s')
  then show ?case by (blast intro: wf_clock_fakeTicker_Reset_idle)
next
  case (i_Ticker_Stop s f)
  then show ?case by (simp add: fakeTicker_Stop_def stop_def wf_clock_stopExpirer)
next
  case (i_Advance s d)
  then show ?case by (simp add: wf_clock_Advance)
next
  case (i_newBlocker s n)
  then show ?case by (simp add: wf_clock_newBlocker)
next
  case (i_drain s f)
  then show ?case by (simp add: wf_clock_drain)
qed

lemma reachable_idle_reset_reachable: "reachable_idle_reset s \<Longrightarrow> reachable s"
  by (induction rule: reachable_idle_reset.induct) (auto intro: reachable.intros)

lemma fakeTimer_Reset_returns: "fst (fakeTimer_Reset f d s) = (f \<in> set (waiters s))"
  by (simp add: fakeTimer_Reset_def split_def Let_def stopExpirer_eq)

lemma fakeTimer_Stop_returns: "fst (fakeTimer_Stop f s) = (f \<in> set (waiters s))"
  by (simp add: fakeTimer_Stop_def stop_def stopExpirer_eq)

section \<open>The claims\<close>

text \<open>
  Claim C1. Resetting a ticker of the fake clock with a duration \<open>d \<le> 0\<close> panics, as
  constructing one does; the reset never succeeds silently. Evaluated on the code:
  \<^verbatim>\<open>NewTicker(0)\<close> panics, while \<^verbatim>\<open>tk.Reset(0)\<close> and \<^verbatim>\<open>tk.Reset(-3)\<close> on a ticker
  made by \<^verbatim>\<open>NewTicker(5)\<close> return: the period is overwritten, the ticker is fired at
  once (its channel holds the current time 0) and it stays in the queue. The comment
  in \<^verbatim>\<open>setExpirer\<close> says that tickers never reach the branch for \<open>d \<le> 0\<close> because
  they panic; \<^verbatim>\<open>fakeTicker.Reset\<close> reaches it.
\<close>

theorem fakeTicker_Reset_nonpositive_returns:
  "isl (NewTicker 0 (NewFakeClockAt 0)) \<and>
   \<not> isl (fakeTicker_Reset 0 0 one_ticker) \<and>
   waiters (projr (fakeTicker_Reset 0 0 one_ticker)) = [0] \<and>
   heap (projr (fakeTicker_Reset 0 0 one_ticker)) 0 = FakeTicker (Some 0) 5 0 \<and>
   \<not> isl (fakeTicker_Reset 0 (- 3) one_ticker) \<and>
   heap (projr (fakeTicker_Reset 0 (- 3) one_ticker)) 0 = FakeTicker (Some 0) 5 (- 3)"
  by code_simp

text \<open>
  Claim C2. Resetting a ticker that is in the waiter queue removes its entry and
  inserts it again, so that it occurs once. Evaluated on the code: after
  \<^verbatim>\<open>tk := NewTicker(5); tk.Reset(7)\<close> the queue holds the ticker twice, while a timer
  that is reset the same way occurs once: \<^verbatim>\<open>fakeTimer.Reset\<close> calls \<^verbatim>\<open>stopExpirer\<close>
  first, \<^verbatim>\<open>fakeTicker.Reset\<close> does not.
\<close>

theorem fakeTicker_Reset_keeps_old_entry:
  "waiters one_ticker = [0] \<and>
   waiters (projr (fakeTicker_Reset 0 7 one_ticker)) = [0, 0] \<and>
   count_list (waiters (projr (fakeTicker_Reset 0 7 one_ticker))) 0 = 2 \<and>
   waiters (snd (fakeTimer_Reset 0 7 (snd (NewTimer 5 (NewFakeClockAt 0))))) = [0]"
  by code_simp


text \<open>
  Claim C4. Every expirer due within an \<^verbatim>\<open>Advance(d)\<close> fires, in the order of the
  instants and, for equal instants, of registration, and the clock's time is the
  expirer's instant when it fires. Evaluated on the code: after
  \<^verbatim>\<open>tk := NewTicker(5); tm := NewTimer(10); tk.Reset(20)\<close> the queue is
  \<open>[tk, tm, tk]\<close>; \<^verbatim>\<open>Advance(12)\<close> looks at the head, which expires at 20, and fires
  nothing, although the timer expires at 10.

  On a well-formed clock the claim holds: \<open>Advance_fires_due\<close>,
  \<open>Advance_fires_in_order\<close>, \<open>Advance_fires_head_first\<close> with \<open>setExpirer_behind\<close>, and
  \<open>Advance_fires_at_instant\<close> (which needs no hypothesis). Every state reached without
  resetting a ticker that is in the queue is well formed (\<open>reachable_idle_reset_wf\<close>).
\<close>

theorem Advance_skips_due_timer:
  "time ticker_timer_reset = 0 \<and>
   waiters ticker_timer_reset = [0, 1, 0] \<and>
   expiration (heap ticker_timer_reset 1) = 10 \<and>
   fired (Advance 12 ticker_timer_reset) = [] \<and>
   chanbuf (heap (Advance 12 ticker_timer_reset) 1) = None \<and>
   waiters (Advance 12 ticker_timer_reset) = [0, 1, 0]"
  by code_simp

text \<open>
  Claim C5. Registering a block-until-\<open>n\<close> observer when the queue already holds at
  least \<open>n\<close> waiters succeeds at once and adds no blocker; otherwise a blocker with
  required count \<open>n\<close> is added, and it is notified and removed exactly when an
  insertion into the queue first makes the length at least \<open>n\<close>, so that
  \<^verbatim>\<open>BlockUntil(n)\<close> does not return while fewer than \<open>n\<close> waiters are registered.

  The hypothesis \<open>blk_ok\<close> holds in every state that the public interface leads to
  (lemma \<open>reachable_blk_ok\<close>) and in the states in between, where \<open>setExpirer\<close> and
  \<open>stopExpirer\<close> run. Under it: \<open>newBlocker\<close> does as the claim says, and a new
  blocker waits; every registered blocker asks for more waiters than there are, and
  waits; an insertion by \<open>setExpirer\<close> removes and notifies the blockers whose count
  the new length has reached, and the others stay and wait; a call of \<open>setExpirer\<close>
  that does not insert, a removal, and \<open>Advance\<close> as a whole notify nobody.
\<close>

theorem blocker_waits_for_threshold:
  assumes "blk_ok s"
  shows
    "(n \<le> int (length (waiters s)) \<longrightarrow>
        newBlocker n s = (None, s) \<and>
        blockUntil_returns (fst (newBlocker n s)) (snd (newBlocker n s))) \<and>
     (int (length (waiters s)) < n \<longrightarrow>
        fst (newBlocker n s) = Some \<lparr>count = n, ch = nextChan s\<rparr> \<and>
        blockers (snd (newBlocker n s)) = blockers s @ [\<lparr>count = n, ch = nextChan s\<rparr>] \<and>
        waiters (snd (newBlocker n s)) = waiters s \<and>
        closed (snd (newBlocker n s)) = closed s \<and>
        \<not> blockUntil_returns (fst (newBlocker n s)) (snd (newBlocker n s))) \<and>
     blk_ok (snd (newBlocker n s)) \<and>
     (\<forall>b\<in>set (blockers s).
        int (length (waiters s)) < count b \<and> \<not> blockUntil_returns (Some b) s) \<and>
     (0 < d \<longrightarrow>
        length (waiters (setExpirer e d s)) = Suc (length (waiters s)) \<and>
        (\<forall>b\<in>set (blockers s).
           if count b \<le> int (length (waiters (setExpirer e d s)))
           then b \<notin> set (blockers (setExpirer e d s)) \<and>
                blockUntil_returns (Some b) (setExpirer e d s)
           else b \<in> set (blockers (setExpirer e d s)) \<and>
                \<not> blockUntil_returns (Some b) (setExpirer e d s))) \<and>
     (d \<le> 0 \<longrightarrow>
        waiters (setExpirer e d s) = waiters s \<and>
        blockers (setExpirer e d s) = blockers s \<and>
        closed (setExpirer e d s) = closed s) \<and>
     blk_ok (setExpirer e d s) \<and>
     blockers (snd (stopExpirer e s)) = blockers s \<and>
     closed (snd (stopExpirer e s)) = closed s \<and>
     blk_ok (snd (stopExpirer e s)) \<and>
     blockers (Advance d s) = blockers s \<and>
     closed (Advance d s) = closed s \<and>
     blk_ok (Advance d s)"
proof -
  have a: "n \<le> int (length (waiters s)) \<longrightarrow>
        newBlocker n s = (None, s) \<and>
        blockUntil_returns (fst (newBlocker n s)) (snd (newBlocker n s))"
    by (simp add: newBlocker_enough blockUntil_returns_def)
  have b: "int (length (waiters s)) < n \<longrightarrow>
        fst (newBlocker n s) = Some \<lparr>count = n, ch = nextChan s\<rparr> \<and>
        blockers (snd (newBlocker n s)) = blockers s @ [\<lparr>count = n, ch = nextChan s\<rparr>] \<and>
        waiters (snd (newBlocker n s)) = waiters s \<and>
        closed (snd (newBlocker n s)) = closed s \<and>
        \<not> blockUntil_returns (fst (newBlocker n s)) (snd (newBlocker n s))"
    using newBlocker_waits[OF assms] by (simp add: newBlocker_register)
  have c: "\<forall>b\<in>set (blockers s).
        int (length (waiters s)) < count b \<and> \<not> blockUntil_returns (Some b) s"
    using blk_ok_waiting[OF assms] by blast
  have d: "0 < d \<longrightarrow>
        length (waiters (setExpirer e d s)) = Suc (length (waiters s)) \<and>
        (\<forall>b\<in>set (blockers s).
           if count b \<le> int (length (waiters (setExpirer e d s)))
           then b \<notin> set (blockers (setExpirer e d s)) \<and>
                blockUntil_returns (Some b) (setExpirer e d s)
           else b \<in> set (blockers (setExpirer e d s)) \<and>
                \<not> blockUntil_returns (Some b) (setExpirer e d s))"
    using setExpirer_notifies[OF assms] setExpirer_pos_length by blast
  have e: "d \<le> 0 \<longrightarrow>
        waiters (setExpirer e d s) = waiters s \<and>
        blockers (setExpirer e d s) = blockers s \<and>
        closed (setExpirer e d s) = closed s"
    by (simp add: setExpirer_nonpos)
  have f: "blockers (snd (stopExpirer e s)) = blockers s"
    "closed (snd (stopExpirer e s)) = closed s"
    by (simp_all add: stopExpirer_eq)
  note g = Advance_frame[OF assms, of d]
  from a b c d e f g blk_ok_newBlocker[OF assms] blk_ok_setExpirer[OF assms]
    blk_ok_stopExpirer[OF assms]
  show ?thesis by blast
qed

theorem blocker_waits_for_threshold_witness:
  "blk_ok timer_and_blocker \<and>
   blockers timer_and_blocker = [\<lparr>count = 2, ch = 0\<rparr>] \<and>
   newBlocker 1 timer_and_blocker = (None, timer_and_blocker) \<and>
   fst (newBlocker 3 timer_and_blocker) = Some \<lparr>count = 3, ch = 1\<rparr> \<and>
   \<not> blockUntil_returns (fst (newBlocker 3 timer_and_blocker))
        (snd (newBlocker 3 timer_and_blocker)) \<and>
   \<not> blockUntil_returns (Some \<lparr>count = 2, ch = 0\<rparr>) timer_and_blocker \<and>
   \<lparr>count = 2, ch = 0\<rparr> \<notin> set (blockers (setExpirer 2 4 timer_and_blocker)) \<and>
   blockUntil_returns (Some \<lparr>count = 2, ch = 0\<rparr>) (setExpirer 2 4 timer_and_blocker) \<and>
   closed (Advance 5 timer_and_blocker) = closed timer_and_blocker"
proof -
  have h: "blk_ok timer_and_blocker" by code_simp
  have len: "length (waiters timer_and_blocker) = 1" by code_simp
  have bl: "blockers timer_and_blocker = [\<lparr>count = 2, ch = 0\<rparr>]" by code_simp
  have nc: "nextChan timer_and_blocker = 1" by code_simp
  have le1: "1 \<le> int (length (waiters timer_and_blocker))" using len by simp
  have lt3: "int (length (waiters timer_and_blocker)) < 3" using len by simp
  have mem: "\<lparr>count = 2, ch = 0\<rparr> \<in> set (blockers timer_and_blocker)" using bl by simp
  have pos: "(0::int) < 4" by simp
  note t1 = blocker_waits_for_threshold[OF h, where n = 1 and d = 4 and e = 2]
  note t3 = blocker_waits_for_threshold[OF h, where n = 3 and d = 5 and e = 2]
  have a: "newBlocker 1 timer_and_blocker = (None, timer_and_blocker)"
    using t1 le1 by blast
  have b: "fst (newBlocker 3 timer_and_blocker) = Some \<lparr>count = 3, ch = 1\<rparr> \<and>
     \<not> blockUntil_returns (fst (newBlocker 3 timer_and_blocker))
          (snd (newBlocker 3 timer_and_blocker))"
    using t3 lt3 unfolding nc by blast
  have c: "\<not> blockUntil_returns (Some \<lparr>count = 2, ch = 0\<rparr>) timer_and_blocker"
    using t1 mem by blast
  have len': "length (waiters (setExpirer 2 4 timer_and_blocker)) = 2"
    using t1 pos len by simp
  have "if count \<lparr>count = 2, ch = 0\<rparr>
           \<le> int (length (waiters (setExpirer 2 4 timer_and_blocker)))
        then \<lparr>count = 2, ch = 0\<rparr> \<notin> set (blockers (setExpirer 2 4 timer_and_blocker)) \<and>
             blockUntil_returns (Some \<lparr>count = 2, ch = 0\<rparr>) (setExpirer 2 4 timer_and_blocker)
        else \<lparr>count = 2, ch = 0\<rparr> \<in> set (blockers (setExpirer 2 4 timer_and_blocker)) \<and>
             \<not> blockUntil_returns (Some \<lparr>count = 2, ch = 0\<rparr>)
                (setExpirer 2 4 timer_and_blocker)"
    using t1 pos mem by blast
  then have d: "\<lparr>count = 2, ch = 0\<rparr> \<notin> set (blockers (setExpirer 2 4 timer_and_blocker)) \<and>
     blockUntil_returns (Some \<lparr>count = 2, ch = 0\<rparr>) (setExpirer 2 4 timer_and_blocker)"
    by (simp add: len')
  have e: "closed (Advance 5 timer_and_blocker) = closed timer_and_blocker"
    using t3 by blast
  from h bl a b c d e show ?thesis by blast
qed

text \<open>
  Claim C6, as stated: a one-shot timer scheduled with \<open>d \<le> 0\<close> through
  \<^verbatim>\<open>NewTimer\<close>, \<^verbatim>\<open>AfterFunc\<close> or \<^verbatim>\<open>Reset\<close> fires at once, is never inserted, its
  channel holds the current time and the waiter count is unchanged. It fails for
  \<^verbatim>\<open>Reset\<close>: \<^verbatim>\<open>tm.Reset(0)\<close> on a waiting timer takes the timer out of the queue (one
  waiter before, none after), and on a timer whose channel still holds the instant 5
  of an earlier firing the channel keeps 5 although the time is 8.
\<close>

theorem nonpositive_Reset_counterexample:
  "length (waiters one_timer) = 1 \<and>
   length (waiters (snd (fakeTimer_Reset 0 0 one_timer))) = 0 \<and>
   time fired_timer = 8 \<and>
   chanbuf (heap fired_timer 0) = Some 5 \<and>
   time (snd (fakeTimer_Reset 0 0 fired_timer)) = 8 \<and>
   chanbuf (heap (snd (fakeTimer_Reset 0 0 fired_timer)) 0) = Some 5"
  by code_simp

text \<open>
  Claim C6, amended. For \<open>d \<le> 0\<close> and without any \<^verbatim>\<open>Advance\<close>: \<^verbatim>\<open>NewTimer(d)\<close> fires
  the new timer with the current time, its channel holds the current time, and the
  queue is unchanged; \<^verbatim>\<open>AfterFunc(d, g)\<close> fires the new timer with the current time,
  spawns \<open>g\<close>, and the queue is unchanged; \<^verbatim>\<open>Reset(d)\<close> on a timer returns whether the
  timer was waiting, removes its entry from the queue if there is one and inserts
  nothing, fires the timer with the current time, and either spawns the callback or
  sends the current time without blocking: the channel holds the current time if it
  was empty and keeps its value otherwise.
\<close>

theorem nonpositive_timer_fires_at_once:
  assumes "d \<le> 0"
  shows
    "fst (NewTimer d s) = nextRef s \<and>
     waiters (snd (NewTimer d s)) = waiters s \<and>
     time (snd (NewTimer d s)) = time s \<and>
     chanbuf (heap (snd (NewTimer d s)) (nextRef s)) = Some (time s) \<and>
     fired (snd (NewTimer d s)) = fired s @ [(nextRef s, time s, time s)] \<and>
     fst (AfterFunc d g s) = nextRef s \<and>
     waiters (snd (AfterFunc d g s)) = waiters s \<and>
     time (snd (AfterFunc d g s)) = time s \<and>
     goroutines (snd (AfterFunc d g s)) = goroutines s @ [g] \<and>
     fired (snd (AfterFunc d g s)) = fired s @ [(nextRef s, time s, time s)] \<and>
     (heap s f = FakeTimer c e a \<longrightarrow>
        fst (fakeTimer_Reset f d s) = (f \<in> set (waiters s)) \<and>
        waiters (snd (fakeTimer_Reset f d s)) = remove1 f (waiters s) \<and>
        time (snd (fakeTimer_Reset f d s)) = time s \<and>
        fired (snd (fakeTimer_Reset f d s)) = fired s @ [(f, time s, time s)] \<and>
        (case a of
           Some g' \<Rightarrow> goroutines (snd (fakeTimer_Reset f d s)) = goroutines s @ [g'] \<and>
                      chanbuf (heap (snd (fakeTimer_Reset f d s)) f) = c
         | None \<Rightarrow> goroutines (snd (fakeTimer_Reset f d s)) = goroutines s \<and>
                   chanbuf (heap (snd (fakeTimer_Reset f d s)) f) =
                     (case c of None \<Rightarrow> Some (time s) | Some v \<Rightarrow> Some v)))"
  using NewTimer_nonpos[OF assms, of s] AfterFunc_nonpos[OF assms, of g s]
    fakeTimer_Reset_nonpos[OF assms, of s f c e a]
  by blast

theorem nonpositive_timer_fires_at_once_witness:
  "(- 1 :: int) \<le> 0 \<and>
   heap one_timer 0 = FakeTimer None 5 None \<and>
   waiters (snd (NewTimer (- 1) one_timer)) = waiters one_timer \<and>
   chanbuf (heap (snd (NewTimer (- 1) one_timer)) (nextRef one_timer)) = Some (time one_timer) \<and>
   goroutines (snd (AfterFunc (- 1) 7 one_timer)) = goroutines one_timer @ [7] \<and>
   fst (fakeTimer_Reset 0 (- 1) one_timer) = (0 \<in> set (waiters one_timer)) \<and>
   waiters (snd (fakeTimer_Reset 0 (- 1) one_timer)) = remove1 0 (waiters one_timer) \<and>
   chanbuf (heap (snd (fakeTimer_Reset 0 (- 1) one_timer)) 0) = Some (time one_timer)"
proof -
  have h: "(- 1 :: int) \<le> 0" by simp
  have hp: "heap one_timer 0 = FakeTimer None 5 None" by code_simp
  note t = nonpositive_timer_fires_at_once[OF h, where s = one_timer and g = 7 and f = 0
      and c = None and e = 5 and a = None]
  have r: "fst (fakeTimer_Reset 0 (- 1) one_timer) = (0 \<in> set (waiters one_timer)) \<and>
       waiters (snd (fakeTimer_Reset 0 (- 1) one_timer)) = remove1 0 (waiters one_timer) \<and>
       chanbuf (heap (snd (fakeTimer_Reset 0 (- 1) one_timer)) 0) = Some (time one_timer)"
    using t hp by simp
  from h hp t r show ?thesis by blast
qed

text \<open>
  Claim C7. The waiter queue is sorted by expiration and every operation keeps it so;
  an insertion places the new entry after the entries with an equal or earlier
  instant. Evaluated on the code: the queue is sorted after
  \<^verbatim>\<open>tk := NewTicker(5); tm := NewTimer(10)\<close>, and after \<^verbatim>\<open>tk.Reset(20)\<close> its
  instants read 20, 10, 20: the insertion sets the expiration of the object that the
  queue already holds.

  An insertion of an expirer that is not in the queue keeps the queue sorted and puts
  the entry where the claim says (\<open>setExpirer_keeps_wf_queue\<close>, \<open>insert_index_split\<close>), and
  so do removal and the loop of \<open>Advance\<close> (\<open>wf_queue_stopExpirer\<close>, \<open>wf_queue_Advance\<close>).
\<close>

theorem fakeTicker_Reset_breaks_order:
  "sorted (map (\<lambda>r. expiration (heap (snd (NewTimer 10 one_ticker)) r))
             (waiters (snd (NewTimer 10 one_ticker)))) \<and>
   map (\<lambda>r. expiration (heap ticker_timer_reset r)) (waiters ticker_timer_reset)
     = [20, 10, 20] \<and>
   \<not> sorted (map (\<lambda>r. expiration (heap ticker_timer_reset r))
               (waiters ticker_timer_reset))"
  by code_simp

text \<open>
  Claim C8. Stopping a registered timer or ticker before its expiration removes it
  from the queue, so that it never fires; stopping an expirer that is not in the queue
  returns false and changes nothing. Evaluated on the code: after
  \<^verbatim>\<open>tk := NewTicker(5); tk.Reset(5); tk.Stop()\<close> the ticker is still in the queue,
  and \<^verbatim>\<open>Advance(5)\<close> fires it.

  Stopping an expirer that is not in the queue is a no-operation in every state
  (\<open>stop_absent\<close>), and \<^verbatim>\<open>Stop\<close> and \<^verbatim>\<open>Reset\<close> of a timer return whether the timer
  was in the queue (\<open>fakeTimer_Stop_returns\<close>, \<open>fakeTimer_Reset_returns\<close>); on a
  well-formed clock stopping removes the expirer (\<open>stop_present\<close>), and an expirer
  that is not in the queue does not fire (\<open>absent_never_fires\<close>).
\<close>

theorem fakeTicker_Stop_leaves_entry:
  "(let s = fakeTicker_Stop 0 (projr (fakeTicker_Reset 0 5 one_ticker))
    in time s = 0 \<and> waiters s = [0] \<and> expiration (heap s 0) = 5 \<and>
       fired (Advance 5 s) = [(0, 5, 5)] \<and>
       chanbuf (heap (Advance 5 s) 0) = Some 5)"
  by code_simp

text \<open>
  Claim C9. Each firing reschedules a ticker of period \<open>p\<close> one period after the
  instant it was scheduled for, so that it has fired \<open>k\<close> times after \<open>k\<close> advances of
  \<open>p\<close>. Evaluated on the code: after
  \<^verbatim>\<open>u := NewTicker(5); tk := NewTicker(5); u.Reset(25)\<close> the queue is \<open>[u, tk, u]\<close>, and
  neither one nor three calls of \<^verbatim>\<open>Advance(5)\<close> fire the ticker \<^verbatim>\<open>tk\<close> of period 5.

  On a well-formed clock the claim holds (\<open>NewTicker_phase\<close>, \<open>tick_round_once\<close>,
  \<open>tick_rounds_count\<close>).
\<close>

theorem ticker_behind_reset_ticker_misses_ticks:
  "heap two_tickers_reset 1 = FakeTicker None 5 5 \<and>
   waiters two_tickers_reset = [0, 1, 0] \<and>
   fired (Advance 5 two_tickers_reset) = [] \<and>
   fired (Advance 5 (Advance 5 (Advance 5 two_tickers_reset))) = [] \<and>
   chanbuf (heap (Advance 5 (Advance 5 (Advance 5 two_tickers_reset))) 1) = None"
  by code_simp

text \<open>
  Claim C10. Between public operations every expirer in the queue expires strictly
  after the current time, so that \<^verbatim>\<open>Advance(0)\<close> fires nothing. Evaluated on the
  code: after \<^verbatim>\<open>tk := NewTicker(5); tm := NewTimer(10); tk.Reset(20); Advance(12)\<close>
  the timer, which expires at 10, is in the queue of a clock whose time is 12; after
  \<^verbatim>\<open>tk.Stop()\<close> the timer is the head of the queue and \<^verbatim>\<open>Advance(0)\<close> fires it.

  The property is part of \<open>wf_clock\<close>, which every public operation keeps except the
  reset of a ticker that is in the queue (\<open>reachable_idle_reset_wf\<close>), and on a
  well-formed clock \<^verbatim>\<open>Advance(0)\<close> changes nothing (\<open>Advance_zero_idle\<close>).
\<close>

theorem waiter_due_between_operations:
  "(let s = Advance 12 ticker_timer_reset;
        s1 = fakeTicker_Stop 0 s
    in time s = 12 \<and> 1 \<in> set (waiters s) \<and> expiration (heap s 1) = 10 \<and>
       waiters s1 = [1, 0] \<and> fired s1 = [] \<and>
       fired (Advance 0 s1) = [(1, 10, 10)] \<and>
       waiters (Advance 0 s1) = [0])"
  by code_simp

end
